theory Spec2Isabelle
  imports Main "HOL-Library.Multiset"
begin

section \<open>The wayback source of xurlfind3r\<close>

text \<open>
  A shallow embedding of \<^verbatim>\<open>pkg/xurlfind3r/sources/wayback/wayback.go\<close>.
  Go strings are byte sequences, so they are \<^typ>\<open>string\<close> here. A Go function with results
  \<^verbatim>\<open>(value, err)\<close> returns both, and the code relies on that (a named result keeps what was
  assigned before an early \<^verbatim>\<open>return\<close>), so such a function returns a pair whose second
  component is \<^typ>\<open>'e option\<close>, \<open>None\<close> for \<^verbatim>\<open>nil\<close>.
\<close>

subsection \<open>Data\<close>

text \<open>\<^verbatim>\<open>sources.Configuration\<close>: the three fields this file reads.\<close>

record Configuration =
  IncludeSubdomains :: bool
  ParseWaybackRobots :: bool
  ParseWaybackSource :: bool

text \<open>\<^verbatim>\<open>sources.URL{Source: ..., Value: ...}\<close>, the record sent on the output channel.\<close>

record URL =
  Source :: string
  Value :: string

text \<open>A snapshot is a \<^verbatim>\<open>[2]string\<close>: index 0 the timestamp, index 1 the original URL.\<close>

type_synonym snapshot = "string \<times> string"

text \<open>
  The errors the file can see: a failed \<^verbatim>\<open>httpclient.SimpleGet\<close>, the scanner's
  \<^verbatim>\<open>bufio.ErrTooLong\<close>, a failed \<^verbatim>\<open>json.Unmarshal\<close>, and \<^verbatim>\<open>fmt.Errorf("%s", msg)\<close>.
\<close>

datatype error = HTTPError string | ErrTooLong | JSONError string | Errorf string

text \<open>
  Of a \<^verbatim>\<open>*fasthttp.Response\<close> the code reads \<^verbatim>\<open>res.Body()\<close> and
  \<^verbatim>\<open>res.Header.ContentLength()\<close> (which is negative for a chunked or identity body).
\<close>

record Response =
  Body :: string
  ContentLength :: int

text \<open>
  What lies outside the file is a parameter of the model: the archive behind
  \<^verbatim>\<open>httpclient.SimpleGet\<close>, the result of \<^verbatim>\<open>json.Unmarshal\<close> into a \<^verbatim>\<open>[][2]string\<close>
  (the slice it leaves and the error), \<^verbatim>\<open>sources.IsInScope\<close>, and the two expanders
  \<^verbatim>\<open>parseWaybackRobots\<close> and \<^verbatim>\<open>parseWaybackSource\<close>, each given by the strings its channel
  delivers before it is closed. \<^verbatim>\<open>limiter.Wait()\<close> only delays a request and is left out.
\<close>

record world =
  SimpleGet :: "string \<Rightarrow> error + Response"
  Unmarshal :: "string \<Rightarrow> snapshot list \<times> error option"
  IsInScope :: "string \<Rightarrow> string \<Rightarrow> bool \<Rightarrow> bool"
  parseWaybackRobots :: "Configuration \<Rightarrow> string \<Rightarrow> string list"
  parseWaybackSource :: "string \<Rightarrow> string \<Rightarrow> string list"

subsection \<open>\<^verbatim>\<open>bufio.Scanner\<close> with the default split function\<close>

text \<open>
  \<^verbatim>\<open>bufio.NewScanner\<close> splits with \<^verbatim>\<open>ScanLines\<close> and a buffer of at most
  \<^verbatim>\<open>MaxScanTokenSize\<close> bytes. One call of \<^verbatim>\<open>Scan\<close> on the unread input: at the end of the
  input it stops without error; when the buffer is full and holds no newline it stops with
  \<^verbatim>\<open>ErrTooLong\<close>; otherwise the token is the line without its terminator (the rest of the
  input when no newline is left), with one trailing carriage return dropped.
\<close>

definition MaxScanTokenSize :: nat where
  "MaxScanTokenSize = 64 * 1024"

definition dropCR :: "string \<Rightarrow> string" where
  "dropCR data = (if data \<noteq> [] \<and> last data = CHR 0x0D then butlast data else data)"

datatype scan_result = Token string string | Stop "error option"

definition Scan :: "string \<Rightarrow> scan_result" where
  "Scan data =
     (if data = [] then Stop None
      else let i = length (takeWhile (\<lambda>c. c \<noteq> CHR 0x0A) data) in
        if MaxScanTokenSize \<le> i then Stop (Some ErrTooLong)
        else Token (dropCR (take i data)) (drop (i + 1) data))"

subsection \<open>\<^verbatim>\<open>getWaybackURLs\<close>\<close>

text \<open>
  The loop \<^verbatim>\<open>for scanner.Scan() { ... }\<close> followed by \<^verbatim>\<open>scanner.Err()\<close>: blank lines are
  skipped, every other line is appended to \<^verbatim>\<open>URLs\<close>.
\<close>

function scanLoop :: "string \<Rightarrow> string list \<Rightarrow> string list \<times> error option" where
  "scanLoop data URLs =
     (case Scan data of
        Stop err \<Rightarrow> (URLs, err)
      | Token URL rest \<Rightarrow>
          if URL = [] then scanLoop rest URLs else scanLoop rest (URLs @ [URL]))"
  by pat_completeness auto
termination
  by (relation "measure (\<lambda>(data, URLs). length data)")
     (auto simp: Scan_def Let_def split: if_splits)

declare scanLoop.simps [simp del]

definition getWaybackURLs :: "world \<Rightarrow> string \<Rightarrow> string list \<times> error option" where
  "getWaybackURLs w domain =
     (let reqURL = ''http://web.archive.org/cdx/search/cdx?url='' @ domain
                     @ ''/*&output=txt&fl=original&collapse=urlkey''
      in case SimpleGet w reqURL of
           Inl err \<Rightarrow> ([], Some err)
         | Inr res \<Rightarrow> scanLoop (Body res) [])"

subsection \<open>\<^verbatim>\<open>getWaybackSnapshots\<close>\<close>

definition getWaybackSnapshots :: "world \<Rightarrow> string \<Rightarrow> snapshot list \<times> error option" where
  "getWaybackSnapshots w URL =
     (let reqURL = ''https://web.archive.org/cdx/search/cdx?url='' @ URL
                     @ ''&output=json&fl=timestamp,original&collapse=digest''
      in case SimpleGet w reqURL of
           Inl err \<Rightarrow> ([], Some err)
         | Inr res \<Rightarrow>
             if ContentLength res = 0 then ([], None)
             else (case Unmarshal w (Body res) of
                     (snapshots, Some err) \<Rightarrow> (snapshots, Some err)
                   | (snapshots, None) \<Rightarrow>
                       if length snapshots < 2 then (snapshots, None)
                       else (drop 1 snapshots, None)))"

subsection \<open>\<^verbatim>\<open>getWaybackContent\<close>\<close>

text \<open>\<^verbatim>\<open>strings.Contains(s, substr)\<close>: \<open>substr\<close> occurs in \<open>s\<close> as a block of consecutive bytes.\<close>

fun isPrefix :: "string \<Rightarrow> string \<Rightarrow> bool" where
  "isPrefix [] s = True"
| "isPrefix (c # substr) [] = False"
| "isPrefix (c # substr) (d # s) = (c = d \<and> isPrefix substr s)"

fun Contains :: "string \<Rightarrow> string \<Rightarrow> bool" where
  "Contains [] substr = (substr = [])"
| "Contains (c # s) substr = (isPrefix substr (c # s) \<or> Contains s substr)"

definition snapshotNotFoundFingerprint :: string where
  "snapshotNotFoundFingerprint =
     ''This page can't be displayed. Please use the correct URL address to access''"

definition getWaybackContent :: "world \<Rightarrow> snapshot \<Rightarrow> string \<times> error option" where
  "getWaybackContent w snapshot =
     (let timestamp = fst snapshot;
          URL = snd snapshot;
          reqURL = ''https://web.archive.org/web/'' @ timestamp @ ''if_/'' @ URL
      in case SimpleGet w reqURL of
           Inl err \<Rightarrow> ([], Some err)
         | Inr res \<Rightarrow>
             let content = Body res in
             if content = [] then (content, None)
             else if Contains content snapshotNotFoundFingerprint
               then (content, Some (Errorf snapshotNotFoundFingerprint))
             else (content, None))"

subsection \<open>The two regular expressions of \<^verbatim>\<open>Run\<close>\<close>

text \<open>
  Go's \<^verbatim>\<open>regexp\<close> reads its input as UTF-8 runes. \<open>runeLen\<close> is the width in bytes of the
  first rune (\<^verbatim>\<open>utf8.DecodeRuneInString\<close>): a byte that starts no valid encoding is a rune
  of width 1.
\<close>

definition byte :: "char \<Rightarrow> nat" where
  "byte c = of_char c"

definition between :: "nat \<Rightarrow> nat \<Rightarrow> char \<Rightarrow> bool" where
  "between lo hi c = (lo \<le> byte c \<and> byte c \<le> hi)"

fun runeLen :: "string \<Rightarrow> nat" where
  "runeLen [] = 0"
| "runeLen [c] = 1"
| "runeLen [c, c1] = (if between 0xC2 0xDF c \<and> between 0x80 0xBF c1 then 2 else 1)"
| "runeLen [c, c1, c2] =
     (if between 0xC2 0xDF c \<and> between 0x80 0xBF c1 then 2
      else if between 0xE0 0xEF c
              \<and> between (if byte c = 0xE0 then 0xA0 else 0x80) (if byte c = 0xED then 0x9F else 0xBF) c1
              \<and> between 0x80 0xBF c2 then 3
      else 1)"
| "runeLen (c # c1 # c2 # c3 # s) =
     (if between 0xC2 0xDF c \<and> between 0x80 0xBF c1 then 2
      else if between 0xE0 0xEF c
              \<and> between (if byte c = 0xE0 then 0xA0 else 0x80) (if byte c = 0xED then 0x9F else 0xBF) c1
              \<and> between 0x80 0xBF c2 then 3
      else if between 0xF0 0xF4 c
              \<and> between (if byte c = 0xF0 then 0x90 else 0x80) (if byte c = 0xF4 then 0x8F else 0xBF) c1
              \<and> between 0x80 0xBF c2 \<and> between 0x80 0xBF c3 then 4
      else 1)"

text \<open>
  \<^verbatim>\<open>mediaURLRegex\<close> is
  \<^verbatim>\<open>(?i)\.(apng|bpm|...|otf)(?:\?|#|$)\<close>, searched anywhere in the URL. Under \<^verbatim>\<open>(?i)\<close> a
  pattern letter matches the runes of its case-folding orbit: its lower and upper case, and for
  \<open>s\<close> also U+017F (bytes C5 BF); the list has no \<open>k\<close>, the other letter with a third rune.
  \<open>foldRune p s\<close> is what is left of \<open>s\<close> after one rune matching the pattern character \<open>p\<close>.
\<close>

definition mediaExtensions :: "string list" where
  "mediaExtensions =
     [''apng'', ''bpm'', ''png'', ''bmp'', ''gif'', ''heif'', ''ico'', ''cur'', ''jpg'',
      ''jpeg'', ''jfif'', ''pjp'', ''pjpeg'', ''psd'', ''raw'', ''svg'', ''tif'', ''tiff'',
      ''webp'', ''xbm'', ''3gp'', ''aac'', ''flac'', ''mpg'', ''mpeg'', ''mp3'', ''mp4'',
      ''m4a'', ''m4v'', ''m4p'', ''oga'', ''ogg'', ''ogv'', ''mov'', ''wav'', ''webm'',
      ''eot'', ''woff'', ''woff2'', ''ttf'', ''otf'']"

definition upper :: "char \<Rightarrow> char" where
  "upper p = (if between 0x61 0x7A p then char_of (byte p - 0x20) else p)"

fun foldRune :: "char \<Rightarrow> string \<Rightarrow> string option" where
  "foldRune p [] = None"
| "foldRune p (c # s) =
     (if c = p \<or> c = upper p then Some s
      else if p = CHR ''s'' \<and> c = CHR 0xC5 \<and> isPrefix [CHR 0xBF] s then Some (drop 1 s)
      else None)"

fun foldLiteral :: "string \<Rightarrow> string \<Rightarrow> string option" where
  "foldLiteral [] s = Some s"
| "foldLiteral (p # ps) s =
     (case foldRune p s of None \<Rightarrow> None | Some s' \<Rightarrow> foldLiteral ps s')"

text \<open>The end of the match, \<^verbatim>\<open>(?:\?|#|$)\<close>; without the flag \<open>m\<close>, \<open>$\<close> is the end of the text.\<close>

fun mediaEnd :: "string \<Rightarrow> bool" where
  "mediaEnd [] = True"
| "mediaEnd (c # s) = (c = CHR ''?'' \<or> c = CHR ''#'')"

fun mediaHere :: "string \<Rightarrow> bool" where
  "mediaHere [] = False"
| "mediaHere (c # s) =
     (c = CHR ''.'' \<and>
      list_ex (\<lambda>ext. case foldLiteral ext s of None \<Rightarrow> False | Some r \<Rightarrow> mediaEnd r)
        mediaExtensions)"

fun mediaURLRegex :: "string \<Rightarrow> bool" where
  "mediaURLRegex [] = False"
| "mediaURLRegex (c # s) = (mediaHere (c # s) \<or> mediaURLRegex s)"

text \<open>
  \<^verbatim>\<open>robotsURLsRegex\<close> is \<^verbatim>\<open>^(https?)://[^ "]+/robots.txt$\<close>, matched against the whole URL.
  The dot is not escaped: it stands for one rune other than a newline.
\<close>

definition robotsTail :: "string \<Rightarrow> bool" where
  "robotsTail t =
     (isPrefix ''/robots'' t \<and>
      (let u = drop 7 t in u \<noteq> [] \<and> take 1 u \<noteq> [CHR 0x0A]
         \<and> drop (runeLen u) u = ''txt''))"

fun robotsBody :: "string \<Rightarrow> bool" where
  "robotsBody [] = False"
| "robotsBody (c # r) =
     (c \<noteq> CHR '' '' \<and> c \<noteq> CHR 0x22 \<and> (robotsTail r \<or> robotsBody r))"

definition robotsURLsRegex :: "string \<Rightarrow> bool" where
  "robotsURLsRegex URL =
     (if isPrefix ''https://'' URL then robotsBody (drop 8 URL)
      else if isPrefix ''http://'' URL then robotsBody (drop 7 URL)
      else False)"

subsection \<open>\<^verbatim>\<open>Run\<close>: the goroutine started for each URL\<close>

definition Name :: string where
  "Name = ''wayback''"

text \<open>
  What a unit does that others can see: a call of \<^verbatim>\<open>sources.IsInScope\<close> with its three
  arguments, a record sent on \<^verbatim>\<open>URLsChannel\<close>, a call of \<^verbatim>\<open>parseWaybackRobots(config, URL)\<close>
  and a call of \<^verbatim>\<open>parseWaybackSource(domain, URL)\<close>.
\<close>

datatype action =
    ScopeChecked string string bool
  | Sent URL
  | RobotsCalled Configuration string
  | SourceCalled string string

text \<open>
  The places of the unit's code where it can be: before the scope check of its URL, before
  sending the base record, before the tests on flags and regular expressions, at the head
  of one of the two \<^verbatim>\<open>range\<close> loops with the strings the expander's channel still holds, before
  the send inside a loop, and returned.
\<close>

datatype pc =
    AtScope
  | AtSend
  | AtExpand
  | InRobots "string list"
  | SendRobots string "string list"
  | InSource "string list"
  | SendSource string "string list"
  | Returned

text \<open>
  One step of the unit for \<open>URL\<close>, reading the shared variable \<open>domain\<close>: the next place and
  the actions of the step, or \<open>None\<close> when the unit has returned. Inside both loops the scope
  check is \<^verbatim>\<open>sources.IsInScope(URL, domain, config.IncludeSubdomains)\<close>, on the unit's own
  \<open>URL\<close>, and the record sent carries the loop variable.
\<close>

fun unitStep :: "world \<Rightarrow> Configuration \<Rightarrow> string \<Rightarrow> string \<Rightarrow> pc \<Rightarrow> (pc \<times> action list) option" where
  "unitStep w config domain URL AtScope =
     Some (if \<not> IsInScope w URL domain (IncludeSubdomains config) then Returned else AtSend,
           [ScopeChecked URL domain (IncludeSubdomains config)])"
| "unitStep w config domain URL AtSend =
     Some (AtExpand, [Sent \<lparr>Source = Name, Value = URL\<rparr>])"
| "unitStep w config domain URL AtExpand =
     (if \<not> ParseWaybackRobots config \<and> \<not> ParseWaybackSource config then Some (Returned, [])
      else if mediaURLRegex URL then Some (Returned, [])
      else if ParseWaybackRobots config \<and> robotsURLsRegex URL
        then Some (InRobots (parseWaybackRobots w config URL), [RobotsCalled config URL])
      else if ParseWaybackSource config \<and> \<not> robotsURLsRegex URL
        then Some (InSource (parseWaybackSource w domain URL), [SourceCalled domain URL])
      else Some (Returned, []))"
| "unitStep w config domain URL (InRobots []) = Some (Returned, [])"
| "unitStep w config domain URL (InRobots (robotsURL # rest)) =
     Some (if \<not> IsInScope w URL domain (IncludeSubdomains config) then InRobots rest
           else SendRobots robotsURL rest,
           [ScopeChecked URL domain (IncludeSubdomains config)])"
| "unitStep w config domain URL (SendRobots robotsURL rest) =
     Some (InRobots rest, [Sent \<lparr>Source = Name @ '':robots'', Value = robotsURL\<rparr>])"
| "unitStep w config domain URL (InSource []) = Some (Returned, [])"
| "unitStep w config domain URL (InSource (sourceURL # rest)) =
     Some (if \<not> IsInScope w URL domain (IncludeSubdomains config) then InSource rest
           else SendSource sourceURL rest,
           [ScopeChecked URL domain (IncludeSubdomains config)])"
| "unitStep w config domain URL (SendSource sourceURL rest) =
     Some (InSource rest, [Sent \<lparr>Source = Name @ '':source'', Value = sourceURL\<rparr>])"
| "unitStep w config domain URL Returned = None"

subsection \<open>\<^verbatim>\<open>Run\<close>: producer, dispatcher and units, interleaved\<close>

text \<open>
  The producer goroutine is before the rewrite of \<open>domain\<close>, before the call of
  \<^verbatim>\<open>getWaybackURLs\<close>, in its loop with the results still to visit, or has returned, which closes
  \<^verbatim>\<open>waybackURLs\<close>. The outer goroutine is in \<^verbatim>\<open>for URL := range waybackURLs\<close>, in \<^verbatim>\<open>wg.Wait()\<close>,
  or has returned, which closes \<^verbatim>\<open>URLsChannel\<close>.
\<close>

datatype producer = PStart | PFetch | PRange "string list" | PClosed

datatype dispatcher = DRange | DWait | DClosed

text \<open>
  The events of a run in the order they happen: an action of the unit with the given number
  (units are numbered in the order they are started), and the closing of \<^verbatim>\<open>URLsChannel\<close>.
\<close>

datatype event = Unit nat action | Closed

record state =
  domainVar :: string
  prod :: producer
  disp :: dispatcher
  units :: "(string \<times> pc) list"
  wg :: int
  trace :: "event list"

text \<open>
  A schedule names the goroutine that moves next. A goroutine that cannot move is
  \<open>Blocked\<close>; a send on a closed channel and a negative \<^verbatim>\<open>WaitGroup\<close> counter are \<open>Panic\<close>.
\<close>

datatype actor = Producer | Dispatcher | Worker nat

datatype 'a outcome = Next 'a | Blocked | Panic

definition init :: "string \<Rightarrow> state" where
  "init domain0 =
     \<lparr>domainVar = domain0, prod = PStart, disp = DRange, units = [], wg = 0, trace = []\<rparr>"

text \<open>
  The producer. Both channels are unbuffered, so \<^verbatim>\<open>waybackURLs <- URL\<close> happens together with
  the receive of the \<^verbatim>\<open>range\<close> loop; the step includes what the loop body does with the URL,
  \<^verbatim>\<open>wg.Add(1)\<close> and the \<^verbatim>\<open>go\<close> statement.
\<close>

definition producerStep :: "world \<Rightarrow> Configuration \<Rightarrow> state \<Rightarrow> state outcome" where
  "producerStep w config s =
     (case prod s of
        PStart \<Rightarrow>
          Next (s\<lparr>domainVar := (if IncludeSubdomains config then ''*.'' @ domainVar s else domainVar s),
                  prod := PFetch\<rparr>)
      | PFetch \<Rightarrow>
          (case getWaybackURLs w (domainVar s) of
             (results, Some err) \<Rightarrow> Next (s\<lparr>prod := PClosed\<rparr>)
           | (results, None) \<Rightarrow> Next (s\<lparr>prod := PRange results\<rparr>))
      | PRange [] \<Rightarrow> Next (s\<lparr>prod := PClosed\<rparr>)
      | PRange (URL # rest) \<Rightarrow>
          if URL = [] then Next (s\<lparr>prod := PRange rest\<rparr>)
          else if disp s = DRange
            then Next (s\<lparr>prod := PRange rest, units := units s @ [(URL, AtScope)],
                         wg := wg s + 1\<rparr>)
          else Blocked
      | PClosed \<Rightarrow> Blocked)"

text \<open>
  The outer goroutine leaves its loop when \<^verbatim>\<open>waybackURLs\<close> is closed, leaves \<^verbatim>\<open>wg.Wait()\<close> when
  the counter is zero, and then returns, which runs the deferred \<^verbatim>\<open>close(URLsChannel)\<close>.
\<close>

definition dispatcherStep :: "state \<Rightarrow> state outcome" where
  "dispatcherStep s =
     (case disp s of
        DRange \<Rightarrow> if prod s = PClosed then Next (s\<lparr>disp := DWait\<rparr>) else Blocked
      | DWait \<Rightarrow>
          if wg s = 0 then Next (s\<lparr>disp := DClosed, trace := trace s @ [Closed]\<rparr>) else Blocked
      | DClosed \<Rightarrow> Blocked)"

text \<open>
  A unit. The reader of \<^verbatim>\<open>URLsChannel\<close> is taken to receive whenever a unit sends, so a send
  is a step of the unit alone; on a closed channel it panics. A unit that returns runs the
  deferred \<^verbatim>\<open>wg.Done()\<close>.
\<close>

fun isSent :: "action \<Rightarrow> bool" where
  "isSent (Sent r) = True"
| "isSent a = False"

definition workerStep :: "world \<Rightarrow> Configuration \<Rightarrow> state \<Rightarrow> nat \<Rightarrow> state outcome" where
  "workerStep w config s i =
     (if length (units s) \<le> i then Blocked
      else case unitStep w config (domainVar s) (fst (units s ! i)) (snd (units s ! i)) of
        None \<Rightarrow> Blocked
      | Some (pc', acts) \<Rightarrow>
          if list_ex isSent acts \<and> disp s = DClosed then Panic
          else if pc' = Returned \<and> wg s - 1 < 0 then Panic
          else Next (s\<lparr>units := (units s)[i := (fst (units s ! i), pc')],
                       wg := (if pc' = Returned then wg s - 1 else wg s),
                       trace := trace s @ map (Unit i) acts\<rparr>))"

fun step :: "world \<Rightarrow> Configuration \<Rightarrow> state \<Rightarrow> actor \<Rightarrow> state outcome" where
  "step w config s Producer = producerStep w config s"
| "step w config s Dispatcher = dispatcherStep s"
| "step w config s (Worker i) = workerStep w config s i"

text \<open>Running a schedule from a state; it stops at the first goroutine that cannot move.\<close>

fun exec :: "world \<Rightarrow> Configuration \<Rightarrow> state \<Rightarrow> actor list \<Rightarrow> state outcome" where
  "exec w config s [] = Next s"
| "exec w config s (a # as) =
     (case step w config s a of
        Next s' \<Rightarrow> exec w config s' as
      | Blocked \<Rightarrow> Blocked
      | Panic \<Rightarrow> Panic)"

text \<open>\<open>Run w config domain0 sched\<close>: the call \<^verbatim>\<open>source.Run(config, domain0)\<close> under a schedule.\<close>

definition Run :: "world \<Rightarrow> Configuration \<Rightarrow> string \<Rightarrow> actor list \<Rightarrow> state outcome" where
  "Run w config domain0 sched = exec w config (init domain0) sched"

text \<open>The records received from \<^verbatim>\<open>URLsChannel\<close>, in order, and whether it has been closed.\<close>

fun sentOf :: "event \<Rightarrow> URL list" where
  "sentOf (Unit i (Sent r)) = [r]"
| "sentOf e = []"

definition received :: "state \<Rightarrow> URL list" where
  "received s = concat (map sentOf (trace s))"

definition closed :: "state \<Rightarrow> bool" where
  "closed s = (disp s = DClosed)"

subsection \<open>Reading a run\<close>

text \<open>The actions of unit \<open>i\<close> in a trace, in order.\<close>

fun actOf :: "nat \<Rightarrow> event \<Rightarrow> action list" where
  "actOf i (Unit j a) = (if j = i then [a] else [])"
| "actOf i Closed = []"

definition actionsOf :: "nat \<Rightarrow> event list \<Rightarrow> action list" where
  "actionsOf i tr = concat (map (actOf i) tr)"

text \<open>
  What a unit still does from a place of its code when \<open>domain\<close> no longer changes: the steps
  of \<open>unitStep\<close> in sequence. \<open>unitRun\<close> is the whole of it.
\<close>

definition loopActions ::
  "world \<Rightarrow> Configuration \<Rightarrow> string \<Rightarrow> string \<Rightarrow> string \<Rightarrow> string list \<Rightarrow> action list" where
  "loopActions w config domain URL tag xs =
     concat (map (\<lambda>x. ScopeChecked URL domain (IncludeSubdomains config) #
                       (if \<not> IsInScope w URL domain (IncludeSubdomains config) then []
                        else [Sent \<lparr>Source = Name @ tag, Value = x\<rparr>])) xs)"

definition expandActions :: "world \<Rightarrow> Configuration \<Rightarrow> string \<Rightarrow> string \<Rightarrow> action list" where
  "expandActions w config domain URL =
     (if \<not> ParseWaybackRobots config \<and> \<not> ParseWaybackSource config then []
      else if mediaURLRegex URL then []
      else if ParseWaybackRobots config \<and> robotsURLsRegex URL
        then RobotsCalled config URL
               # loopActions w config domain URL '':robots'' (parseWaybackRobots w config URL)
      else if ParseWaybackSource config \<and> \<not> robotsURLsRegex URL
        then SourceCalled domain URL
               # loopActions w config domain URL '':source'' (parseWaybackSource w domain URL)
      else [])"

fun remaining :: "world \<Rightarrow> Configuration \<Rightarrow> string \<Rightarrow> string \<Rightarrow> pc \<Rightarrow> action list" where
  "remaining w config domain URL AtScope =
     ScopeChecked URL domain (IncludeSubdomains config) #
       (if \<not> IsInScope w URL domain (IncludeSubdomains config) then []
        else Sent \<lparr>Source = Name, Value = URL\<rparr> # expandActions w config domain URL)"
| "remaining w config domain URL AtSend =
     Sent \<lparr>Source = Name, Value = URL\<rparr> # expandActions w config domain URL"
| "remaining w config domain URL AtExpand = expandActions w config domain URL"
| "remaining w config domain URL (InRobots rest) = loopActions w config domain URL '':robots'' rest"
| "remaining w config domain URL (SendRobots robotsURL rest) =
     Sent \<lparr>Source = Name @ '':robots'', Value = robotsURL\<rparr>
       # loopActions w config domain URL '':robots'' rest"
| "remaining w config domain URL (InSource rest) = loopActions w config domain URL '':source'' rest"
| "remaining w config domain URL (SendSource sourceURL rest) =
     Sent \<lparr>Source = Name @ '':source'', Value = sourceURL\<rparr>
       # loopActions w config domain URL '':source'' rest"
| "remaining w config domain URL Returned = []"

definition unitRun :: "world \<Rightarrow> Configuration \<Rightarrow> string \<Rightarrow> string \<Rightarrow> action list" where
  "unitRun w config domain URL = remaining w config domain URL AtScope"

text \<open>The units that have not returned; the value of \<open>domain\<close> after the producer's first step.\<close>

definition active :: "(string \<times> pc) list \<Rightarrow> nat" where
  "active us = length (filter (\<lambda>u. snd u \<noteq> Returned) us)"

definition effectiveDomain :: "Configuration \<Rightarrow> string \<Rightarrow> string" where
  "effectiveDomain config domain0 =
     (if IncludeSubdomains config then ''*.'' @ domain0 else domain0)"

text \<open>
  The URLs the producer sends on \<^verbatim>\<open>waybackURLs\<close> in a whole run, and those it has still to send
  from a place of its code.
\<close>

definition dispatched :: "world \<Rightarrow> Configuration \<Rightarrow> string \<Rightarrow> string list" where
  "dispatched w config domain0 =
     (case getWaybackURLs w (effectiveDomain config domain0) of
        (results, Some err) \<Rightarrow> []
      | (results, None) \<Rightarrow> filter (\<lambda>URL. URL \<noteq> []) results)"

fun pending :: "world \<Rightarrow> Configuration \<Rightarrow> string \<Rightarrow> producer \<Rightarrow> string list" where
  "pending w config domain0 PStart = dispatched w config domain0"
| "pending w config domain0 PFetch = dispatched w config domain0"
| "pending w config domain0 (PRange results) = filter (\<lambda>URL. URL \<noteq> []) results"
| "pending w config domain0 PClosed = []"

text \<open>The invariant of \<open>Run\<close>, kept by every step of every goroutine.\<close>

definition inv :: "world \<Rightarrow> Configuration \<Rightarrow> string \<Rightarrow> state \<Rightarrow> bool" where
  "inv w config domain0 s \<longleftrightarrow>
     domainVar s = (if prod s = PStart then domain0 else effectiveDomain config domain0) \<and>
     (prod s \<noteq> PClosed \<longrightarrow> disp s = DRange) \<and>
     map fst (units s) @ pending w config domain0 (prod s) = dispatched w config domain0 \<and>
     wg s = int (active (units s)) \<and>
     (disp s = DClosed \<longrightarrow> active (units s) = 0) \<and>
     (\<forall>i < length (units s).
        actionsOf i (trace s)
          @ remaining w config (effectiveDomain config domain0) (fst (units s ! i)) (snd (units s ! i))
        = unitRun w config (effectiveDomain config domain0) (fst (units s ! i))) \<and>
     (\<forall>i \<ge> length (units s). actionsOf i (trace s) = []) \<and>
     (if disp s = DClosed then \<exists>tr. trace s = tr @ [Closed] \<and> Closed \<notin> set tr
      else Closed \<notin> set (trace s))"

text \<open>
  A bound on the steps a state has left: each goroutine's own steps, and for the producer
  also the steps of the units it will start.
\<close>

fun pcWeight :: "world \<Rightarrow> Configuration \<Rightarrow> string \<Rightarrow> string \<Rightarrow> pc \<Rightarrow> nat" where
  "pcWeight w config domain URL AtScope =
     4 + 2 * (length (parseWaybackRobots w config URL) + length (parseWaybackSource w domain URL))"
| "pcWeight w config domain URL AtSend =
     3 + 2 * (length (parseWaybackRobots w config URL) + length (parseWaybackSource w domain URL))"
| "pcWeight w config domain URL AtExpand =
     2 + 2 * (length (parseWaybackRobots w config URL) + length (parseWaybackSource w domain URL))"
| "pcWeight w config domain URL (InRobots rest) = 1 + 2 * length rest"
| "pcWeight w config domain URL (SendRobots robotsURL rest) = 2 + 2 * length rest"
| "pcWeight w config domain URL (InSource rest) = 1 + 2 * length rest"
| "pcWeight w config domain URL (SendSource sourceURL rest) = 2 + 2 * length rest"
| "pcWeight w config domain URL Returned = 0"

definition rangeWeight :: "world \<Rightarrow> Configuration \<Rightarrow> string \<Rightarrow> string list \<Rightarrow> nat" where
  "rangeWeight w config domain results =
     1 + (\<Sum>URL\<leftarrow>results. 1 + pcWeight w config domain URL AtScope)"

fun producerWeight :: "world \<Rightarrow> Configuration \<Rightarrow> string \<Rightarrow> producer \<Rightarrow> nat" where
  "producerWeight w config domain PStart =
     (let domain' = (if IncludeSubdomains config then ''*.'' @ domain else domain)
      in 2 + rangeWeight w config domain' (fst (getWaybackURLs w domain')))"
| "producerWeight w config domain PFetch =
     1 + rangeWeight w config domain (fst (getWaybackURLs w domain))"
| "producerWeight w config domain (PRange results) = rangeWeight w config domain results"
| "producerWeight w config domain PClosed = 0"

fun dispatcherWeight :: "dispatcher \<Rightarrow> nat" where
  "dispatcherWeight DRange = 2"
| "dispatcherWeight DWait = 1"
| "dispatcherWeight DClosed = 0"

definition weight :: "world \<Rightarrow> Configuration \<Rightarrow> state \<Rightarrow> nat" where
  "weight w config s =
     producerWeight w config (domainVar s) (prod s) + dispatcherWeight (disp s)
     + (\<Sum>u\<leftarrow>units s. pcWeight w config (domainVar s) (fst u) (snd u))"

subsection \<open>The words of the specification\<close>

text \<open>
  Modelled from the spec: \<^verbatim>\<open>sources.IsInScope\<close> is not under src/. Scope Spec: a URL is in
  scope iff its host equals \<open>rootDomain\<close>, or (when \<open>includeSubdomains\<close>) is a strict subdomain
  of it. The host is what follows the scheme, up to a slash, a colon, a question mark or a
  hash.
\<close>

definition afterScheme :: "string \<Rightarrow> string" where
  "afterScheme URL =
     (if isPrefix ''https://'' URL then drop 8 URL
      else if isPrefix ''http://'' URL then drop 7 URL
      else URL)"

definition hostOf :: "string \<Rightarrow> string" where
  "hostOf URL =
     takeWhile (\<lambda>c. c \<noteq> CHR ''/'' \<and> c \<noteq> CHR '':'' \<and> c \<noteq> CHR ''?'' \<and> c \<noteq> CHR ''#'')
       (afterScheme URL)"

definition inScope :: "string \<Rightarrow> string \<Rightarrow> bool \<Rightarrow> bool" where
  "inScope URL rootDomain includeSubdomains =
     (hostOf URL = rootDomain \<or>
      (includeSubdomains \<and> length rootDomain + 1 < length (hostOf URL)
         \<and> isPrefix (rev (CHR ''.'' # rootDomain)) (rev (hostOf URL))))"

text \<open>
  The media URLs in the words of the spec: an extension of the denylist, in any case of its
  letters, immediately before the end of the string, \<open>?\<close> or \<open>#\<close>.
\<close>

definition lower :: "char \<Rightarrow> char" where
  "lower c = (if between 0x41 0x5A c then char_of (byte c + 0x20) else c)"

fun extensionHere :: "string \<Rightarrow> bool" where
  "extensionHere [] = False"
| "extensionHere (c # s) =
     (c = CHR ''.'' \<and>
      list_ex (\<lambda>ext. length ext \<le> length s \<and> map lower (take (length ext) s) = ext
                     \<and> mediaEnd (drop (length ext) s))
        mediaExtensions)"

fun hasMediaExtension :: "string \<Rightarrow> bool" where
  "hasMediaExtension [] = False"
| "hasMediaExtension (c # s) = (extensionHere (c # s) \<or> hasMediaExtension s)"


subsection \<open>An archive to run against\<close>

definition newline :: string where
  "newline = [CHR 0x0A]"

definition indexBody :: string where
  "indexBody =
     ''http://example.com/a'' @ newline @
     ''http://sub.example.com/b'' @ newline @
     newline @
     ''http://example.com/robots.txt'' @ newline @
     ''http://example.com/docs/robots.txt'' @ newline @
     ''http://example.com/logo.PNG'' @ newline @
     ''http://example.com/robots.txt?v=2'' @ newline"

definition longBody :: string where
  "longBody = ''http://long.example/a'' @ newline @ replicate 65536 (CHR ''a'')"

definition headerOnly :: string where
  \<open>headerOnly = ''[["timestamp","original"]]''\<close>

definition twoCaptures :: string where
  \<open>twoCaptures =
     ''[["timestamp","original"],["2019","http://example.com/a"],["2021","http://example.com/a"]]''\<close>

definition goneBody :: string where
  "goneBody = ''<p>'' @ snapshotNotFoundFingerprint @ '' this capture.</p>''"

definition archive :: world where
  "archive =
     \<lparr>SimpleGet = (\<lambda>reqURL.
        if reqURL = ''http://web.archive.org/cdx/search/cdx?url=example.com/*&output=txt&fl=original&collapse=urlkey''
          then Inr \<lparr>Body = indexBody, ContentLength = int (length indexBody)\<rparr>
        else if reqURL = ''http://web.archive.org/cdx/search/cdx?url=*.example.com/*&output=txt&fl=original&collapse=urlkey''
          then Inr \<lparr>Body = indexBody, ContentLength = int (length indexBody)\<rparr>
        else if reqURL = ''http://web.archive.org/cdx/search/cdx?url=long.example/*&output=txt&fl=original&collapse=urlkey''
          then Inr \<lparr>Body = longBody, ContentLength = int (length longBody)\<rparr>
        else if reqURL = ''https://web.archive.org/cdx/search/cdx?url=http://example.com/robots.txt&output=json&fl=timestamp,original&collapse=digest''
          then Inr \<lparr>Body = headerOnly, ContentLength = int (length headerOnly)\<rparr>
        else if reqURL = ''https://web.archive.org/cdx/search/cdx?url=http://example.com/a&output=json&fl=timestamp,original&collapse=digest''
          then Inr \<lparr>Body = twoCaptures, ContentLength = int (length twoCaptures)\<rparr>
        else if reqURL = ''https://web.archive.org/web/2019if_/http://example.com/a''
          then Inr \<lparr>Body = goneBody, ContentLength = int (length goneBody)\<rparr>
        else if reqURL = ''https://web.archive.org/web/2021if_/http://example.com/a''
          then Inr \<lparr>Body = [], ContentLength = 0\<rparr>
        else Inl (HTTPError ''dial tcp: i/o timeout'')),
      Unmarshal = (\<lambda>body.
        if body = headerOnly then ([(''timestamp'', ''original'')], None)
        else if body = twoCaptures
          then ([(''timestamp'', ''original''), (''2019'', ''http://example.com/a''),
                 (''2021'', ''http://example.com/a'')], None)
        else ([], Some (JSONError ''unexpected end of JSON input''))),
      IsInScope = inScope,
      parseWaybackRobots = (\<lambda>config URL.
        if URL = ''http://example.com/robots.txt''
          then [''http://example.com/sitemap.xml'', ''http://evil.org/sitemap.xml'']
        else if URL = ''http://example.com/docs/robots.txt''
          then [''http://example.com/docs/private'']
        else []),
      parseWaybackSource = (\<lambda>domain URL.
        if URL = ''http://example.com/a'' then [''http://example.com/c''] else [])\<rparr>"

definition configPlain :: Configuration where
  "configPlain =
     \<lparr>IncludeSubdomains = False, ParseWaybackRobots = False, ParseWaybackSource = False\<rparr>"

definition configAll :: Configuration where
  "configAll =
     \<lparr>IncludeSubdomains = False, ParseWaybackRobots = True, ParseWaybackSource = True\<rparr>"

definition configSub :: Configuration where
  "configSub =
     \<lparr>IncludeSubdomains = True, ParseWaybackRobots = False, ParseWaybackSource = False\<rparr>"

text \<open>
  Three schedules that run to the end: the producer first, then the units in turn, the
  first two units starting before the producer is done.
\<close>

definition schedPlain :: "actor list" where
  "schedPlain =
     [Producer, Producer, Producer, Worker 0, Producer, Worker 1, Worker 0,
      Producer, Producer, Producer, Producer, Producer, Dispatcher,
      Worker 0, Worker 2, Worker 3, Worker 4, Worker 5,
      Worker 2, Worker 3, Worker 4, Worker 5,
      Worker 2, Worker 3, Worker 4, Worker 5, Dispatcher]"

definition schedAll :: "actor list" where
  "schedAll =
     [Producer, Producer, Producer, Worker 0, Producer, Worker 1, Worker 0,
      Producer, Producer, Producer, Producer, Producer, Dispatcher,
      Worker 0, Worker 2, Worker 3, Worker 4, Worker 5,
      Worker 0, Worker 2, Worker 3, Worker 4, Worker 5,
      Worker 0, Worker 2, Worker 3, Worker 4, Worker 5,
      Worker 0, Worker 2, Worker 3, Worker 5,
      Worker 2, Worker 3, Worker 2, Worker 3, Worker 2, Worker 2, Dispatcher]"

definition schedSub :: "actor list" where
  "schedSub =
     [Producer, Producer, Producer, Worker 0, Producer, Worker 1,
      Producer, Producer, Producer, Producer, Producer, Dispatcher,
      Worker 2, Worker 3, Worker 4, Worker 5, Dispatcher]"

text \<open>Where the three schedules end.\<close>

definition finalPlain :: state where
  "finalPlain =
     \<lparr>domainVar = ''example.com'', prod = PClosed, disp = DClosed,
      units =
        [(''http://example.com/a'', Returned),
         (''http://sub.example.com/b'', Returned),
         (''http://example.com/robots.txt'', Returned),
         (''http://example.com/docs/robots.txt'', Returned),
         (''http://example.com/logo.PNG'', Returned),
         (''http://example.com/robots.txt?v=2'', Returned)],
      wg = 0,
      trace =
        [Unit 0 (ScopeChecked ''http://example.com/a'' ''example.com'' False),
         Unit 1 (ScopeChecked ''http://sub.example.com/b'' ''example.com'' False),
         Unit 0 (Sent \<lparr>Source = ''wayback'', Value = ''http://example.com/a''\<rparr>),
         Unit 2 (ScopeChecked ''http://example.com/robots.txt'' ''example.com'' False),
         Unit 3 (ScopeChecked ''http://example.com/docs/robots.txt'' ''example.com'' False),
         Unit 4 (ScopeChecked ''http://example.com/logo.PNG'' ''example.com'' False),
         Unit 5 (ScopeChecked ''http://example.com/robots.txt?v=2'' ''example.com'' False),
         Unit 2 (Sent \<lparr>Source = ''wayback'', Value = ''http://example.com/robots.txt''\<rparr>),
         Unit 3 (Sent \<lparr>Source = ''wayback'', Value = ''http://example.com/docs/robots.txt''\<rparr>),
         Unit 4 (Sent \<lparr>Source = ''wayback'', Value = ''http://example.com/logo.PNG''\<rparr>),
         Unit 5 (Sent \<lparr>Source = ''wayback'', Value = ''http://example.com/robots.txt?v=2''\<rparr>),
         Closed]\<rparr>"

definition finalAll :: state where
  "finalAll =
     \<lparr>domainVar = ''example.com'', prod = PClosed, disp = DClosed,
      units =
        [(''http://example.com/a'', Returned),
         (''http://sub.example.com/b'', Returned),
         (''http://example.com/robots.txt'', Returned),
         (''http://example.com/docs/robots.txt'', Returned),
         (''http://example.com/logo.PNG'', Returned),
         (''http://example.com/robots.txt?v=2'', Returned)],
      wg = 0,
      trace =
        [Unit 0 (ScopeChecked ''http://example.com/a'' ''example.com'' False),
         Unit 1 (ScopeChecked ''http://sub.example.com/b'' ''example.com'' False),
         Unit 0 (Sent \<lparr>Source = ''wayback'', Value = ''http://example.com/a''\<rparr>),
         Unit 0 (SourceCalled ''example.com'' ''http://example.com/a''),
         Unit 2 (ScopeChecked ''http://example.com/robots.txt'' ''example.com'' False),
         Unit 3 (ScopeChecked ''http://example.com/docs/robots.txt'' ''example.com'' False),
         Unit 4 (ScopeChecked ''http://example.com/logo.PNG'' ''example.com'' False),
         Unit 5 (ScopeChecked ''http://example.com/robots.txt?v=2'' ''example.com'' False),
         Unit 0 (ScopeChecked ''http://example.com/a'' ''example.com'' False),
         Unit 2 (Sent \<lparr>Source = ''wayback'', Value = ''http://example.com/robots.txt''\<rparr>),
         Unit 3 (Sent \<lparr>Source = ''wayback'', Value = ''http://example.com/docs/robots.txt''\<rparr>),
         Unit 4 (Sent \<lparr>Source = ''wayback'', Value = ''http://example.com/logo.PNG''\<rparr>),
         Unit 5 (Sent \<lparr>Source = ''wayback'', Value = ''http://example.com/robots.txt?v=2''\<rparr>),
         Unit 0 (Sent \<lparr>Source = ''wayback:source'', Value = ''http://example.com/c''\<rparr>),
         Unit 2 (RobotsCalled configAll ''http://example.com/robots.txt''),
         Unit 3 (RobotsCalled configAll ''http://example.com/docs/robots.txt''),
         Unit 5 (SourceCalled ''example.com'' ''http://example.com/robots.txt?v=2''),
         Unit 2 (ScopeChecked ''http://example.com/robots.txt'' ''example.com'' False),
         Unit 3 (ScopeChecked ''http://example.com/docs/robots.txt'' ''example.com'' False),
         Unit 2 (Sent \<lparr>Source = ''wayback:robots'', Value = ''http://example.com/sitemap.xml''\<rparr>),
         Unit 3 (Sent \<lparr>Source = ''wayback:robots'', Value = ''http://example.com/docs/private''\<rparr>),
         Unit 2 (ScopeChecked ''http://example.com/robots.txt'' ''example.com'' False),
         Unit 2 (Sent \<lparr>Source = ''wayback:robots'', Value = ''http://evil.org/sitemap.xml''\<rparr>),
         Closed]\<rparr>"

definition finalSub :: state where
  "finalSub =
     \<lparr>domainVar = ''*.example.com'', prod = PClosed, disp = DClosed,
      units =
        [(''http://example.com/a'', Returned),
         (''http://sub.example.com/b'', Returned),
         (''http://example.com/robots.txt'', Returned),
         (''http://example.com/docs/robots.txt'', Returned),
         (''http://example.com/logo.PNG'', Returned),
         (''http://example.com/robots.txt?v=2'', Returned)],
      wg = 0,
      trace =
        [Unit 0 (ScopeChecked ''http://example.com/a'' ''*.example.com'' True),
         Unit 1 (ScopeChecked ''http://sub.example.com/b'' ''*.example.com'' True),
         Unit 2 (ScopeChecked ''http://example.com/robots.txt'' ''*.example.com'' True),
         Unit 3 (ScopeChecked ''http://example.com/docs/robots.txt'' ''*.example.com'' True),
         Unit 4 (ScopeChecked ''http://example.com/logo.PNG'' ''*.example.com'' True),
         Unit 5 (ScopeChecked ''http://example.com/robots.txt?v=2'' ''*.example.com'' True),
         Closed]\<rparr>"

text \<open>A schedule for the domain whose index has a line too long for the scanner.\<close>

definition schedLong :: "actor list" where
  "schedLong = [Producer, Producer, Dispatcher, Dispatcher]"

definition finalLong :: state where
  "finalLong =
     \<lparr>domainVar = ''long.example'', prod = PClosed, disp = DClosed, units = [], wg = 0,
      trace = [Closed]\<rparr>"

text \<open>The records sent in a list of actions.\<close>

fun sentIn :: "action \<Rightarrow> URL list" where
  "sentIn (Sent r) = [r]"
| "sentIn a = []"

definition recordsOf :: "action list \<Rightarrow> URL list" where
  "recordsOf acts = concat (map sentIn acts)"

subsection \<open>The lines of a response body\<close>

text \<open>
  The lines of a body as the scanner cuts them: at every newline, without a last empty line
  after a final newline. A line is too long for the scanner when it has
  \<^verbatim>\<open>MaxScanTokenSize\<close> bytes or more; scanning fails when some line is too long, and what has
  been scanned before are the lines in front of the first such line, without the blank ones.
  The index fetch fails when the request of \<^verbatim>\<open>getWaybackURLs\<close> fails or the scanning of its
  body does.
\<close>

fun linesOf :: "string \<Rightarrow> string list" where
  "linesOf [] = []"
| "linesOf (c # s) =
     (if c = CHR 0x0A then [] # linesOf s
      else case linesOf s of [] \<Rightarrow> [[c]] | l # ls \<Rightarrow> (c # l) # ls)"

definition tooLong :: "string \<Rightarrow> bool" where
  "tooLong l = (MaxScanTokenSize \<le> length l)"

definition scanFails :: "string \<Rightarrow> bool" where
  "scanFails body = list_ex tooLong (linesOf body)"

definition scannedBefore :: "string \<Rightarrow> string list" where
  "scannedBefore body =
     filter (\<lambda>URL. URL \<noteq> []) (map dropCR (takeWhile (\<lambda>l. \<not> tooLong l) (linesOf body)))"

definition indexRequest :: "string \<Rightarrow> string" where
  "indexRequest domain =
     ''http://web.archive.org/cdx/search/cdx?url='' @ domain
       @ ''/*&output=txt&fl=original&collapse=urlkey''"

definition indexFails :: "world \<Rightarrow> string \<Rightarrow> bool" where
  "indexFails w domain =
     (case SimpleGet w (indexRequest domain) of
        Inl err \<Rightarrow> True
      | Inr res \<Rightarrow> scanFails (Body res))"

text \<open>Where the same schedule ends for a domain whose index request fails.\<close>

definition finalDown :: state where
  "finalDown =
     \<lparr>domainVar = ''down.example'', prod = PClosed, disp = DClosed, units = [], wg = 0,
      trace = [Closed]\<rparr>"

section \<open>Properties\<close>

subsection \<open>A unit, step by step and as a whole\<close>

lemma loopActions_Nil [simp]: "loopActions w config domain URL tag [] = []"
  by (simp add: loopActions_def)

lemma loopActions_Cons:
  "loopActions w config domain URL tag (x # xs) =
     ScopeChecked URL domain (IncludeSubdomains config) #
       (if \<not> IsInScope w URL domain (IncludeSubdomains config) then []
        else [Sent \<lparr>Source = Name @ tag, Value = x\<rparr>]) @ loopActions w config domain URL tag xs"
  by (simp add: loopActions_def)

lemma unitStep_remaining:
  "unitStep w config domain URL p = Some (p', acts) \<Longrightarrow>
     remaining w config domain URL p = acts @ remaining w config domain URL p'"
  by (induction w config domain URL p rule: unitStep.induct)
     (auto simp: expandActions_def loopActions_Cons split: if_splits)

lemma unitStep_None: "unitStep w config domain URL p = None \<longleftrightarrow> p = Returned"
  by (induction w config domain URL p rule: unitStep.induct) auto

lemma unitStep_Some: "p \<noteq> Returned \<Longrightarrow> \<exists>r. unitStep w config domain URL p = Some r"
  using unitStep_None [of w config domain URL p] by auto

lemma unitStep_weight:
  "unitStep w config domain URL p = Some (p', acts) \<Longrightarrow>
     pcWeight w config domain URL p' < pcWeight w config domain URL p"
  by (induction w config domain URL p rule: unitStep.induct) (auto split: if_splits)

subsection \<open>Traces and unit lists\<close>

lemma actionsOf_simps [simp]:
  "actionsOf i [] = []"
  "actionsOf i (xs @ ys) = actionsOf i xs @ actionsOf i ys"
  "actionsOf i [Closed] = []"
  "actionsOf i (map (Unit j) acts) = (if j = i then acts else [])"
  by (induction acts) (auto simp: actionsOf_def)

lemma active_append [simp]: "active (us @ vs) = active us + active vs"
  by (simp add: active_def)

lemma active_single [simp]: "active [(URL, p)] = (if p = Returned then 0 else 1)"
  by (simp add: active_def)

lemma active_update:
  "i < length us \<Longrightarrow> snd (us ! i) \<noteq> Returned \<Longrightarrow>
     active (us[i := (URL, p)]) = (if p = Returned then active us - 1 else active us)
     \<and> 0 < active us"
proof (induction us arbitrary: i)
  case Nil
  then show ?case by simp
next
  case (Cons u us)
  show ?case
  proof (cases i)
    case 0
    with Cons.prems show ?thesis by (simp add: active_def)
  next
    case (Suc k)
    with Cons.prems Cons.IH [of k] show ?thesis by (auto simp: active_def)
  qed
qed

lemma active_zero: "active us = 0 \<longleftrightarrow> (\<forall>u \<in> set us. snd u = Returned)"
  by (auto simp: active_def filter_empty_conv)

lemma sum_list_update_less:
  fixes f :: "'a \<Rightarrow> nat"
  assumes "i < length xs" "f y < f (xs ! i)"
  shows "sum_list (map f (xs[i := y])) < sum_list (map f xs)"
  using assms
proof (induction xs arbitrary: i)
  case Nil
  then show ?case by simp
next
  case (Cons x xs)
  then show ?case by (cases i) auto
qed

subsection \<open>The steps of the three kinds of goroutine\<close>

lemma producerStep_cases:
  assumes "producerStep w config s = Next s'"
  obtains
    (start) "prod s = PStart"
      "s' = s\<lparr>domainVar := (if IncludeSubdomains config then ''*.'' @ domainVar s else domainVar s),
               prod := PFetch\<rparr>"
  | (failed) results err where "prod s = PFetch"
      "getWaybackURLs w (domainVar s) = (results, Some err)" "s' = s\<lparr>prod := PClosed\<rparr>"
  | (fetched) results where "prod s = PFetch"
      "getWaybackURLs w (domainVar s) = (results, None)" "s' = s\<lparr>prod := PRange results\<rparr>"
  | (exhausted) "prod s = PRange []" "s' = s\<lparr>prod := PClosed\<rparr>"
  | (skip) rest where "prod s = PRange ([] # rest)" "s' = s\<lparr>prod := PRange rest\<rparr>"
  | (send) URL rest where "prod s = PRange (URL # rest)" "URL \<noteq> []" "disp s = DRange"
      "s' = s\<lparr>prod := PRange rest, units := units s @ [(URL, AtScope)], wg := wg s + 1\<rparr>"
  using assms
  by (auto simp: producerStep_def split: producer.splits list.splits prod.splits option.splits if_splits)

lemma dispatcherStep_cases:
  assumes "dispatcherStep s = Next s'"
  obtains
    (leave) "disp s = DRange" "prod s = PClosed" "s' = s\<lparr>disp := DWait\<rparr>"
  | (close) "disp s = DWait" "wg s = 0" "s' = s\<lparr>disp := DClosed, trace := trace s @ [Closed]\<rparr>"
  using assms by (auto simp: dispatcherStep_def split: dispatcher.splits if_splits)

lemma workerStep_cases:
  assumes "workerStep w config s i = Next s'"
  obtains p' acts where "i < length (units s)"
    "unitStep w config (domainVar s) (fst (units s ! i)) (snd (units s ! i)) = Some (p', acts)"
    "disp s = DClosed \<longrightarrow> \<not> list_ex isSent acts"
    "s' = s\<lparr>units := (units s)[i := (fst (units s ! i), p')],
             wg := (if p' = Returned then wg s - 1 else wg s),
             trace := trace s @ map (Unit i) acts\<rparr>"
  using assms by (auto simp: workerStep_def split: option.splits if_splits)

subsection \<open>The invariant\<close>

lemma inv_init: "inv w config domain0 (init domain0)"
  by (simp add: inv_def init_def active_def)

lemma inv_producer:
  assumes "inv w config domain0 s" "producerStep w config s = Next s'"
  shows "inv w config domain0 s'"
  using assms(2)
proof (cases rule: producerStep_cases)
  case start
  with assms(1) show ?thesis by (auto simp: inv_def effectiveDomain_def)
next
  case (failed results err)
  with assms(1) show ?thesis by (auto simp: inv_def dispatched_def)
next
  case (fetched results)
  with assms(1) show ?thesis by (auto simp: inv_def dispatched_def)
next
  case exhausted
  with assms(1) show ?thesis by (auto simp: inv_def)
next
  case (skip rest)
  with assms(1) show ?thesis by (auto simp: inv_def)
next
  case (send URL rest)
  with assms(1) show ?thesis
    by (auto simp: inv_def nth_append unitRun_def)
qed

lemma inv_dispatcher:
  assumes "inv w config domain0 s" "dispatcherStep s = Next s'"
  shows "inv w config domain0 s'"
  using assms(2)
proof (cases rule: dispatcherStep_cases)
  case leave
  with assms(1) show ?thesis by (auto simp: inv_def)
next
  case close
  with assms(1) show ?thesis by (auto simp: inv_def)
qed

lemma inv_worker:
  assumes I: "inv w config domain0 s" and st: "workerStep w config s i = Next s'"
  shows "inv w config domain0 s'"
  using st
proof (cases rule: workerStep_cases)
  case (1 p' acts)
  let ?d = "effectiveDomain config domain0"
  let ?U = "fst (units s ! i)"
  from 1(1) I have notstart: "prod s \<noteq> PStart"
    by (auto simp: inv_def)
  with I have dv: "domainVar s = ?d"
    by (simp add: inv_def)
  from 1(2) have live: "snd (units s ! i) \<noteq> Returned"
    by auto
  from active_update [OF 1(1) live, of ?U p']
  have act: "active ((units s)[i := (?U, p')]) = (if p' = Returned then active (units s) - 1 else active (units s))"
    and pos: "0 < active (units s)"
    by simp_all
  from pos I have notclosed: "disp s \<noteq> DClosed"
    by (auto simp: inv_def)
  from 1(2) dv have rem: "remaining w config ?d ?U (snd (units s ! i)) = acts @ remaining w config ?d ?U p'"
    by (simp add: unitStep_remaining)
  have fsts: "map fst ((units s)[i := (?U, p')]) = map fst (units s)"
    using 1(1) by (simp add: map_update list_update_same_conv)
  have units': "\<forall>j < length (units s').
        actionsOf j (trace s') @ remaining w config ?d (fst (units s' ! j)) (snd (units s' ! j))
        = unitRun w config ?d (fst (units s' ! j))"
  proof (intro allI impI)
    fix j assume "j < length (units s')"
    then have j: "j < length (units s)" using 1(4) by simp
    from I j have old: "actionsOf j (trace s) @ remaining w config ?d (fst (units s ! j)) (snd (units s ! j))
        = unitRun w config ?d (fst (units s ! j))"
      by (simp add: inv_def)
    show "actionsOf j (trace s') @ remaining w config ?d (fst (units s' ! j)) (snd (units s' ! j))
        = unitRun w config ?d (fst (units s' ! j))"
    proof (cases "j = i")
      case True
      with old rem 1(1) 1(4) show ?thesis by simp
    next
      case False
      with old 1(4) show ?thesis by simp
    qed
  qed
  have c1: "domainVar s' = (if prod s' = PStart then domain0 else ?d)"
    using 1(4) dv notstart by simp
  have c2: "prod s' \<noteq> PClosed \<longrightarrow> disp s' = DRange"
    using 1(4) I by (simp add: inv_def)
  have c3: "map fst (units s') @ pending w config domain0 (prod s') = dispatched w config domain0"
    using 1(4) I fsts by (simp add: inv_def)
  have c4: "wg s' = int (active (units s'))"
    using 1(4) I act pos by (auto simp: inv_def)
  have c5: "disp s' = DClosed \<longrightarrow> active (units s') = 0"
    using 1(4) notclosed by simp
  have c7: "\<forall>j \<ge> length (units s'). actionsOf j (trace s') = []"
    using 1(4) 1(1) I by (auto simp: inv_def)
  have c8: "(if disp s' = DClosed then \<exists>tr. trace s' = tr @ [Closed] \<and> Closed \<notin> set tr
      else Closed \<notin> set (trace s'))"
    using 1(4) notclosed I by (auto simp: inv_def)
  from c1 c2 c3 c4 c5 units' c7 c8 show ?thesis
    unfolding inv_def by blast
qed

lemma inv_step:
  "inv w config domain0 s \<Longrightarrow> step w config s a = Next s' \<Longrightarrow> inv w config domain0 s'"
  by (cases a) (auto intro: inv_producer inv_dispatcher inv_worker)

lemma exec_append:
  "exec w config s (as @ bs) =
     (case exec w config s as of Next s' \<Rightarrow> exec w config s' bs | Blocked \<Rightarrow> Blocked | Panic \<Rightarrow> Panic)"
  by (induction as arbitrary: s) (auto split: outcome.splits)

lemma inv_exec:
  "inv w config domain0 s \<Longrightarrow> exec w config s sched = Next s' \<Longrightarrow> inv w config domain0 s'"
  by (induction sched arbitrary: s) (auto split: outcome.splits dest: inv_step)

lemma inv_Run: "Run w config domain0 sched = Next s \<Longrightarrow> inv w config domain0 s"
  unfolding Run_def using inv_exec [OF inv_init] by blast

subsection \<open>No panic, a bound on every run, and progress\<close>

lemma step_no_panic:
  assumes I: "inv w config domain0 s"
  shows "step w config s a \<noteq> Panic"
proof (cases a)
  case Producer
  then show ?thesis
    by (auto simp: producerStep_def split: producer.splits list.splits prod.splits option.splits)
next
  case Dispatcher
  then show ?thesis by (auto simp: dispatcherStep_def split: dispatcher.splits)
next
  case (Worker i)
  show ?thesis
  proof (cases "i < length (units s)")
    case False
    with Worker show ?thesis by (simp add: workerStep_def)
  next
    case True
    show ?thesis
    proof (cases "unitStep w config (domainVar s) (fst (units s ! i)) (snd (units s ! i))")
      case None
      with Worker True show ?thesis by (simp add: workerStep_def)
    next
      case (Some r)
      then have live: "snd (units s ! i) \<noteq> Returned" by auto
      from active_update [OF True live, of undefined undefined] have pos: "0 < active (units s)"
        by simp
      with I have "disp s \<noteq> DClosed" "0 < wg s" by (auto simp: inv_def)
      with Worker True Some show ?thesis
        by (cases r) (simp add: workerStep_def)
    qed
  qed
qed

lemma exec_no_panic:
  "inv w config domain0 s \<Longrightarrow> exec w config s sched \<noteq> Panic"
proof (induction sched arbitrary: s)
  case Nil
  then show ?case by simp
next
  case (Cons a sched)
  show ?case
  proof (cases "step w config s a")
    case (Next s')
    with Cons.prems have "inv w config domain0 s'" by (rule inv_step)
    with Cons.IH Next show ?thesis by simp
  next
    case Blocked
    then show ?thesis by simp
  next
    case Panic
    with step_no_panic [OF Cons.prems] show ?thesis by blast
  qed
qed

lemma weight_producer:
  assumes "inv w config domain0 s" "producerStep w config s = Next s'"
  shows "weight w config s' < weight w config s"
  using assms(2)
proof (cases rule: producerStep_cases)
  case start
  with assms(1) have "units s = []" by (auto simp: inv_def)
  with start show ?thesis by (simp add: weight_def Let_def)
next
  case (failed results err)
  then show ?thesis by (simp add: weight_def rangeWeight_def)
next
  case (fetched results)
  then show ?thesis by (simp add: weight_def)
next
  case exhausted
  then show ?thesis by (simp add: weight_def rangeWeight_def)
next
  case (skip rest)
  then show ?thesis by (simp add: weight_def rangeWeight_def)
next
  case (send URL rest)
  then show ?thesis by (simp add: weight_def rangeWeight_def)
qed

lemma weight_dispatcher:
  assumes "dispatcherStep s = Next s'"
  shows "weight w config s' < weight w config s"
  using assms by (cases rule: dispatcherStep_cases) (simp_all add: weight_def)

lemma weight_worker:
  assumes "workerStep w config s i = Next s'"
  shows "weight w config s' < weight w config s"
  using assms
proof (cases rule: workerStep_cases)
  case (1 p' acts)
  let ?f = "\<lambda>u. pcWeight w config (domainVar s) (fst u) (snd u)"
  from unitStep_weight [OF 1(2)] have "?f (fst (units s ! i), p') < ?f (units s ! i)"
    by simp
  from sum_list_update_less [of i "units s" ?f, OF 1(1) this] 1(4)
  show ?thesis by (simp add: weight_def)
qed

lemma weight_step:
  "inv w config domain0 s \<Longrightarrow> step w config s a = Next s' \<Longrightarrow>
     weight w config s' < weight w config s"
  by (cases a) (auto intro: weight_producer weight_dispatcher weight_worker)

lemma weight_exec:
  "inv w config domain0 s \<Longrightarrow> exec w config s sched = Next s' \<Longrightarrow>
     length sched + weight w config s' \<le> weight w config s"
proof (induction sched arbitrary: s)
  case Nil
  then show ?case by simp
next
  case (Cons a sched)
  from Cons.prems(2) obtain t where t: "step w config s a = Next t" "exec w config t sched = Next s'"
    by (auto split: outcome.splits)
  from Cons.prems(1) t(1) have "inv w config domain0 t" by (rule inv_step)
  from Cons.IH [OF this t(2)] weight_step [OF Cons.prems(1) t(1)] show ?case by simp
qed

lemma progress:
  assumes I: "inv w config domain0 s" and notclosed: "disp s \<noteq> DClosed"
  shows "\<exists>a s'. step w config s a = Next s'"
proof (cases "prod s = PClosed")
  case False
  with I have "disp s = DRange" by (simp add: inv_def)
  then have "\<exists>s'. producerStep w config s = Next s'" using False
    by (auto simp: producerStep_def split: producer.splits list.splits prod.splits option.splits)
  then show ?thesis by (metis step.simps(1))
next
  case True
  show ?thesis
  proof (cases "disp s")
    case DRange
    with True have "dispatcherStep s = Next (s\<lparr>disp := DWait\<rparr>)"
      by (simp add: dispatcherStep_def)
    then show ?thesis by (metis step.simps(2))
  next
    case DWait
    show ?thesis
    proof (cases "wg s = 0")
      case True
      with DWait have "dispatcherStep s = Next (s\<lparr>disp := DClosed, trace := trace s @ [Closed]\<rparr>)"
        by (simp add: dispatcherStep_def)
      then show ?thesis by (metis step.simps(2))
    next
      case False
      with I have pos: "0 < active (units s)" by (simp add: inv_def)
      then obtain u where "u \<in> set (units s)" "snd u \<noteq> Returned"
        using active_zero [of "units s"] by auto
      then obtain i where i: "i < length (units s)" "snd (units s ! i) \<noteq> Returned"
        by (auto simp: in_set_conv_nth)
      from unitStep_Some [OF i(2)] obtain p' acts where
        "unitStep w config (domainVar s) (fst (units s ! i)) (snd (units s ! i)) = Some (p', acts)"
        by fastforce
      with i DWait pos I have "\<exists>s'. workerStep w config s i = Next s'"
        by (auto simp: workerStep_def inv_def)
      then show ?thesis by (metis step.simps(3))
    qed
  next
    case DClosed
    with notclosed show ?thesis by simp
  qed
qed

lemma can_close:
  "inv w config domain0 s \<Longrightarrow> \<exists>sched s'. exec w config s sched = Next s' \<and> closed s'"
proof (induction "weight w config s" arbitrary: s rule: less_induct)
  case less
  show ?case
  proof (cases "closed s")
    case True
    then have "exec w config s [] = Next s \<and> closed s" by simp
    then show ?thesis by blast
  next
    case False
    then have "disp s \<noteq> DClosed" by (simp add: closed_def)
    from progress [OF less.prems this] obtain a t where t: "step w config s a = Next t"
      by blast
    from less.prems t have "inv w config domain0 t" by (rule inv_step)
    moreover from less.prems t have "weight w config t < weight w config s" by (rule weight_step)
    ultimately obtain sched s' where "exec w config t sched = Next s'" "closed s'"
      using less.hyps by blast
    with t have "exec w config s (a # sched) = Next s' \<and> closed s'" by simp
    then show ?thesis by blast
  qed
qed

subsection \<open>Evaluating the example\<close>

text \<open>
  For evaluation the bound of the scanner is compared as an integer, so that the numeral
  stays binary.
\<close>

lemma Scan_code [code]:
  "Scan data =
     (if data = [] then Stop None
      else let i = length (takeWhile (\<lambda>c. c \<noteq> CHR 0x0A) data) in
        if (65536 :: int) \<le> int i then Stop (Some ErrTooLong)
        else Token (dropCR (take i data)) (drop (i + 1) data))"
  by (simp add: Scan_def MaxScanTokenSize_def Let_def)

lemma run_plain: "Run archive configPlain ''example.com'' schedPlain = Next finalPlain"
  by code_simp

lemma run_all: "Run archive configAll ''example.com'' schedAll = Next finalAll"
  by code_simp

lemma run_sub: "Run archive configSub ''example.com'' schedSub = Next finalSub"
  by code_simp

subsection \<open>Substrings\<close>

lemma isPrefix_iff: "isPrefix xs s \<longleftrightarrow> (\<exists>post. s = xs @ post)"
  by (induction xs s rule: isPrefix.induct) auto

lemma Contains_iff: "Contains s substr \<longleftrightarrow> (\<exists>pre post. s = pre @ substr @ post)"
proof (induction s)
  case Nil
  then show ?case by auto
next
  case (Cons c s)
  show ?case
  proof
    assume "Contains (c # s) substr"
    then consider "isPrefix substr (c # s)" | "Contains s substr" by auto
    then show "\<exists>pre post. c # s = pre @ substr @ post"
    proof cases
      case 1
      then obtain post where "c # s = substr @ post" by (auto simp: isPrefix_iff)
      then have "c # s = [] @ substr @ post" by simp
      then show ?thesis by blast
    next
      case 2
      with Cons.IH obtain pre post where "s = pre @ substr @ post" by auto
      then have "c # s = (c # pre) @ substr @ post" by simp
      then show ?thesis by blast
    qed
  next
    assume "\<exists>pre post. c # s = pre @ substr @ post"
    then obtain pre post where e: "c # s = pre @ substr @ post" by auto
    show "Contains (c # s) substr"
    proof (cases pre)
      case Nil
      with e have "isPrefix substr (c # s)" by (auto simp: isPrefix_iff)
      then show ?thesis by simp
    next
      case (Cons d pre')
      with e have "s = pre' @ substr @ post" by simp
      with Cons.IH have "Contains s substr" by blast
      then show ?thesis by simp
    qed
  qed
qed

subsection \<open>What the trace of a run holds\<close>

lemma actionsOf_member: "a \<in> set (actionsOf i tr) \<longleftrightarrow> Unit i a \<in> set tr"
proof (induction tr)
  case Nil
  then show ?case by (simp add: actionsOf_def)
next
  case (Cons e tr)
  then show ?case by (cases e) (auto simp: actionsOf_def)
qed

lemma Run_unit_prefix:
  assumes "Run w config domain0 sched = Next s" "i < length (units s)"
  shows "\<exists>rest. unitRun w config (effectiveDomain config domain0) (fst (units s ! i))
                  = actionsOf i (trace s) @ rest"
  using inv_Run [OF assms(1)] assms(2) unfolding inv_def by metis

lemma Run_unit_known:
  assumes "Run w config domain0 sched = Next s" "Unit i a \<in> set (trace s)"
  shows "i < length (units s)
         \<and> a \<in> set (unitRun w config (effectiveDomain config domain0) (fst (units s ! i)))"
proof -
  from assms(2) have m: "a \<in> set (actionsOf i (trace s))" by (simp add: actionsOf_member)
  have i: "i < length (units s)"
  proof (rule ccontr)
    assume "\<not> i < length (units s)"
    with inv_Run [OF assms(1)] have "actionsOf i (trace s) = []" by (simp add: inv_def)
    with m show False by simp
  qed
  from Run_unit_prefix [OF assms(1) i] m show ?thesis using i by auto
qed


lemma loopActions_set:
  "a \<in> set (loopActions w config domain URL tag xs) \<Longrightarrow>
     a = ScopeChecked URL domain (IncludeSubdomains config)
     \<or> (IsInScope w URL domain (IncludeSubdomains config)
         \<and> (\<exists>x \<in> set xs. a = Sent \<lparr>Source = Name @ tag, Value = x\<rparr>))"
  by (induction xs) (auto simp: loopActions_Cons split: if_splits)

lemma expandActions_set:
  assumes "a \<in> set (expandActions w config domain URL)"
  shows "\<not> mediaURLRegex URL \<and>
     (a = ScopeChecked URL domain (IncludeSubdomains config)
      \<or> (a = RobotsCalled config URL \<and> ParseWaybackRobots config \<and> robotsURLsRegex URL)
      \<or> (a = SourceCalled domain URL \<and> ParseWaybackSource config \<and> \<not> robotsURLsRegex URL)
      \<or> (\<exists>x. a = Sent \<lparr>Source = Name @ '':robots'', Value = x\<rparr>)
      \<or> (\<exists>x. a = Sent \<lparr>Source = Name @ '':source'', Value = x\<rparr>))"
  using assms
  by (auto simp: expandActions_def split: if_splits dest!: loopActions_set)

lemma unitRun_set:
  assumes "a \<in> set (unitRun w config domain URL)"
  shows "a = ScopeChecked URL domain (IncludeSubdomains config)
      \<or> (IsInScope w URL domain (IncludeSubdomains config) \<and>
          (a = Sent \<lparr>Source = Name, Value = URL\<rparr>
           \<or> (\<not> mediaURLRegex URL \<and>
               ((a = RobotsCalled config URL \<and> ParseWaybackRobots config \<and> robotsURLsRegex URL)
                \<or> (a = SourceCalled domain URL \<and> ParseWaybackSource config \<and> \<not> robotsURLsRegex URL)
                \<or> (\<exists>x. a = Sent \<lparr>Source = Name @ '':robots'', Value = x\<rparr>)
                \<or> (\<exists>x. a = Sent \<lparr>Source = Name @ '':source'', Value = x\<rparr>)))))"
  using assms expandActions_set [of a w config domain URL]
  by (auto simp: unitRun_def split: if_splits)

lemma unitRun_RobotsCalled:
  "RobotsCalled c u \<in> set (unitRun w config domain URL) \<longleftrightarrow>
     c = config \<and> u = URL \<and> IsInScope w URL domain (IncludeSubdomains config)
     \<and> \<not> mediaURLRegex URL \<and> ParseWaybackRobots config \<and> robotsURLsRegex URL"
proof
  assume "RobotsCalled c u \<in> set (unitRun w config domain URL)"
  from unitRun_set [OF this] show "c = config \<and> u = URL \<and> IsInScope w URL domain (IncludeSubdomains config)
     \<and> \<not> mediaURLRegex URL \<and> ParseWaybackRobots config \<and> robotsURLsRegex URL"
    by auto
next
  assume "c = config \<and> u = URL \<and> IsInScope w URL domain (IncludeSubdomains config)
     \<and> \<not> mediaURLRegex URL \<and> ParseWaybackRobots config \<and> robotsURLsRegex URL"
  then show "RobotsCalled c u \<in> set (unitRun w config domain URL)"
    by (simp add: unitRun_def expandActions_def)
qed

lemma unitRun_SourceCalled:
  "SourceCalled d u \<in> set (unitRun w config domain URL) \<longleftrightarrow>
     d = domain \<and> u = URL \<and> IsInScope w URL domain (IncludeSubdomains config)
     \<and> \<not> mediaURLRegex URL \<and> ParseWaybackSource config \<and> \<not> robotsURLsRegex URL"
proof
  assume "SourceCalled d u \<in> set (unitRun w config domain URL)"
  from unitRun_set [OF this] show "d = domain \<and> u = URL \<and> IsInScope w URL domain (IncludeSubdomains config)
     \<and> \<not> mediaURLRegex URL \<and> ParseWaybackSource config \<and> \<not> robotsURLsRegex URL"
    by auto
next
  assume "d = domain \<and> u = URL \<and> IsInScope w URL domain (IncludeSubdomains config)
     \<and> \<not> mediaURLRegex URL \<and> ParseWaybackSource config \<and> \<not> robotsURLsRegex URL"
  then show "SourceCalled d u \<in> set (unitRun w config domain URL)"
    by (simp add: unitRun_def expandActions_def)
qed

subsection \<open>The records of a run, as a multiset\<close>

lemma recordsOf_simps [simp]:
  "recordsOf [] = []"
  "recordsOf (a # acts) = sentIn a @ recordsOf acts"
  "recordsOf (acts @ acts') = recordsOf acts @ recordsOf acts'"
  by (simp_all add: recordsOf_def)

lemma sum_mset_add_at:
  fixes f :: "nat \<Rightarrow> 'a multiset"
  assumes "j < n"
  shows "(\<Sum>i<n. (if j = i then M else {#}) + f i) = M + (\<Sum>i<n. f i)"
proof -
  have "(\<Sum>i<n. (if j = i then M else {#}) + f i)
      = (\<Sum>i<n. if j = i then M else {#}) + (\<Sum>i<n. f i)"
    by (rule sum.distrib)
  moreover from assms have "(\<Sum>i<n. if j = i then M else {#}) = M"
    by simp
  ultimately show ?thesis by simp
qed

lemma received_by_unit:
  assumes "\<forall>j \<ge> n. actionsOf j tr = []"
  shows "mset (concat (map sentOf tr)) = (\<Sum>i<n. mset (recordsOf (actionsOf i tr)))"
  using assms
proof (induction tr)
  case Nil
  then show ?case by simp
next
  case (Cons e tr)
  from Cons.prems have rest: "\<forall>j \<ge> n. actionsOf j tr = []"
    by (simp add: actionsOf_def)
  note IH = Cons.IH [OF rest]
  show ?case
  proof (cases e)
    case Closed
    with IH show ?thesis by (simp add: actionsOf_def)
  next
    case (Unit j a)
    have j: "j < n"
    proof (rule ccontr)
      assume "\<not> j < n"
      with Cons.prems have "actionsOf j (e # tr) = []" by simp
      with Unit show False by (simp add: actionsOf_def)
    qed
    have each: "\<And>i. mset (recordsOf (actionsOf i (e # tr)))
        = (if j = i then mset (sentIn a) else {#}) + mset (recordsOf (actionsOf i tr))"
      using Unit by (simp add: actionsOf_def)
    have "sentOf e = sentIn a" using Unit by (cases a) simp_all
    then have "mset (concat (map sentOf (e # tr))) = mset (sentIn a) + mset (concat (map sentOf tr))"
      by simp
    also have "\<dots> = mset (sentIn a) + (\<Sum>i<n. mset (recordsOf (actionsOf i tr)))"
      using IH by simp
    also have "\<dots> = (\<Sum>i<n. (if j = i then mset (sentIn a) else {#}) + mset (recordsOf (actionsOf i tr)))"
      by (rule sum_mset_add_at [OF j, symmetric])
    also have "\<dots> = (\<Sum>i<n. mset (recordsOf (actionsOf i (e # tr))))"
      using each by simp
    finally show ?thesis .
  qed
qed

lemma sum_mset_nth:
  "(\<Sum>i<length xs. mset (G (xs ! i))) = mset (concat (map G xs))"
proof (induction xs rule: rev_induct)
  case Nil
  then show ?case by simp
next
  case (snoc x xs)
  have "(\<Sum>i<length xs. mset (G ((xs @ [x]) ! i))) = (\<Sum>i<length xs. mset (G (xs ! i)))"
    by (rule sum.cong) (simp_all add: nth_append)
  with snoc show ?case by simp
qed

text \<open>
  In every state of a run, the records received, those the units still have to send and those
  of the units still to be started make up the records of the sequential runs of all the
  URLs the producer sends.
\<close>

lemma received_conservation:
  assumes r: "Run w config domain0 sched = Next s"
  shows "mset (received s)
         + (\<Sum>i<length (units s). mset (recordsOf
              (remaining w config (effectiveDomain config domain0) (fst (units s ! i)) (snd (units s ! i)))))
         + mset (concat (map (\<lambda>URL. recordsOf (unitRun w config (effectiveDomain config domain0) URL))
              (pending w config domain0 (prod s))))
         = mset (concat (map (\<lambda>URL. recordsOf (unitRun w config (effectiveDomain config domain0) URL))
              (dispatched w config domain0)))"
proof -
  let ?d = "effectiveDomain config domain0"
  let ?n = "length (units s)"
  let ?F = "\<lambda>URL. recordsOf (unitRun w config ?d URL)"
  note I = inv_Run [OF r]
  from I have none: "\<forall>j \<ge> ?n. actionsOf j (trace s) = []" by (simp add: inv_def)
  have got: "mset (received s) = (\<Sum>i<?n. mset (recordsOf (actionsOf i (trace s))))"
    unfolding received_def by (rule received_by_unit [OF none])
  have each: "\<And>i. i < ?n \<Longrightarrow>
      mset (recordsOf (actionsOf i (trace s)))
        + mset (recordsOf (remaining w config ?d (fst (units s ! i)) (snd (units s ! i))))
      = mset (?F (map fst (units s) ! i))"
  proof -
    fix i assume i: "i < ?n"
    with I have "actionsOf i (trace s) @ remaining w config ?d (fst (units s ! i)) (snd (units s ! i))
        = unitRun w config ?d (fst (units s ! i))"
      by (simp add: inv_def)
    from arg_cong [OF this, of recordsOf]
    have "recordsOf (actionsOf i (trace s))
        @ recordsOf (remaining w config ?d (fst (units s ! i)) (snd (units s ! i)))
        = ?F (fst (units s ! i))"
      by simp
    from arg_cong [OF this, of mset] i
    show "mset (recordsOf (actionsOf i (trace s)))
        + mset (recordsOf (remaining w config ?d (fst (units s ! i)) (snd (units s ! i))))
      = mset (?F (map fst (units s) ! i))"
      by simp
  qed
  have "mset (received s)
         + (\<Sum>i<?n. mset (recordsOf (remaining w config ?d (fst (units s ! i)) (snd (units s ! i)))))
      = (\<Sum>i<?n. mset (recordsOf (actionsOf i (trace s)))
            + mset (recordsOf (remaining w config ?d (fst (units s ! i)) (snd (units s ! i)))))"
    by (simp add: got sum.distrib)
  also have "\<dots> = (\<Sum>i<?n. mset (?F (map fst (units s) ! i)))"
    by (rule sum.cong) (simp_all add: each)
  also have "\<dots> = mset (concat (map ?F (map fst (units s))))"
    using sum_mset_nth [of ?F "map fst (units s)"] by simp
  finally have "mset (received s)
         + (\<Sum>i<?n. mset (recordsOf (remaining w config ?d (fst (units s ! i)) (snd (units s ! i)))))
         + mset (concat (map ?F (pending w config domain0 (prod s))))
      = mset (concat (map ?F (map fst (units s) @ pending w config domain0 (prod s))))"
    by simp
  with I show ?thesis by (simp add: inv_def)
qed

lemma received_closed:
  assumes r: "Run w config domain0 sched = Next s" and c: "closed s"
  shows "mset (received s)
         = mset (concat (map (\<lambda>URL. recordsOf (unitRun w config (effectiveDomain config domain0) URL))
              (dispatched w config domain0)))"
proof -
  note I = inv_Run [OF r]
  from I c have p: "prod s = PClosed" by (auto simp: inv_def closed_def)
  from I c have "active (units s) = 0" by (simp add: inv_def closed_def)
  then have "\<forall>i < length (units s). snd (units s ! i) = Returned"
    by (simp add: active_zero)
  then have "(\<Sum>i<length (units s). mset (recordsOf
              (remaining w config (effectiveDomain config domain0) (fst (units s ! i)) (snd (units s ! i)))))
           = {#}"
    by simp
  with received_conservation [OF r] p show ?thesis by simp
qed

lemma received_sub:
  assumes r: "Run w config domain0 sched = Next s"
  shows "mset (received s)
         \<subseteq># mset (concat (map (\<lambda>URL. recordsOf (unitRun w config (effectiveDomain config domain0) URL))
              (dispatched w config domain0)))"
proof -
  let ?R = "(\<Sum>i<length (units s). mset (recordsOf
              (remaining w config (effectiveDomain config domain0) (fst (units s ! i)) (snd (units s ! i)))))
         + mset (concat (map (\<lambda>URL. recordsOf (unitRun w config (effectiveDomain config domain0) URL))
              (pending w config domain0 (prod s))))"
  have "mset (received s) \<subseteq># mset (received s) + ?R"
    by (rule mset_subset_eq_add_left)
  with received_conservation [OF r] show ?thesis
    by (simp add: add.assoc)
qed

section \<open>The claims\<close>

subsection \<open>C1: the scope of the records sent\<close>

text \<open>
  C1. The claim: every record sent is in scope, and every URL an expander extracts is
  scope-checked before it is sent. In both loops the code checks \<open>URL\<close>, the unit's own URL,
  which has already passed, and not the loop variable: with the robots expander delivering
  \<open>http://evil.org/sitemap.xml\<close> for \<open>http://example.com/robots.txt\<close>, that URL is sent
  tagged \<open>wayback:robots\<close> although it is out of scope for \<open>example.com\<close>.
\<close>

theorem out_of_scope_record_sent:
  "Run archive configAll ''example.com'' schedAll = Next finalAll
   \<and> \<lparr>Source = ''wayback:robots'', Value = ''http://evil.org/sitemap.xml''\<rparr> \<in> set (received finalAll)
   \<and> \<not> IsInScope archive ''http://evil.org/sitemap.xml'' ''example.com'' (IncludeSubdomains configAll)
   \<and> \<not> inScope ''http://evil.org/sitemap.xml'' ''example.com'' False
   \<and> unitStep archive configAll ''example.com'' ''http://example.com/robots.txt''
        (InRobots [''http://evil.org/sitemap.xml''])
      = Some (SendRobots ''http://evil.org/sitemap.xml'' [],
              [ScopeChecked ''http://example.com/robots.txt'' ''example.com'' False])"
proof -
  have "\<lparr>Source = ''wayback:robots'', Value = ''http://evil.org/sitemap.xml''\<rparr> \<in> set (received finalAll)
   \<and> \<not> IsInScope archive ''http://evil.org/sitemap.xml'' ''example.com'' (IncludeSubdomains configAll)
   \<and> \<not> inScope ''http://evil.org/sitemap.xml'' ''example.com'' False
   \<and> unitStep archive configAll ''example.com'' ''http://example.com/robots.txt''
        (InRobots [''http://evil.org/sitemap.xml''])
      = Some (SendRobots ''http://evil.org/sitemap.xml'' [],
              [ScopeChecked ''http://example.com/robots.txt'' ''example.com'' False])"
    by code_simp
  with run_all show ?thesis by (intro conjI) blast+
qed

subsection \<open>C2: no expansion flag\<close>

lemma scanLoop_nonempty:
  "[] \<notin> set URLs \<Longrightarrow> [] \<notin> set (fst (scanLoop data URLs))"
proof (induction data URLs rule: scanLoop.induct)
  case (1 data URLs)
  show ?case
  proof (cases "Scan data")
    case (Stop err)
    with 1(3) show ?thesis by (subst scanLoop.simps) simp
  next
    case (Token URL rest)
    show ?thesis
    proof (cases "URL = []")
      case True
      with Token 1(1) 1(3) show ?thesis by (subst scanLoop.simps) simp
    next
      case False
      with Token 1(2) 1(3) show ?thesis by (subst scanLoop.simps) simp
    qed
  qed
qed

lemma getWaybackURLs_nonempty: "[] \<notin> set (fst (getWaybackURLs w domain))"
  by (cases "SimpleGet w (''http://web.archive.org/cdx/search/cdx?url='' @ domain
                @ ''/*&output=txt&fl=original&collapse=urlkey'')")
     (simp_all add: getWaybackURLs_def Let_def scanLoop_nonempty)

lemma dispatched_results:
  assumes "getWaybackURLs w (effectiveDomain config domain0) = (results, None)"
  shows "dispatched w config domain0 = results"
proof -
  from getWaybackURLs_nonempty [of w "effectiveDomain config domain0"] assms
  have "[] \<notin> set results" by simp
  then have "filter (\<lambda>URL. URL \<noteq> []) results = results"
    by (induction results) auto
  with assms show ?thesis by (simp add: dispatched_def)
qed

lemma recordsOf_plain:
  assumes "\<not> ParseWaybackRobots config" "\<not> ParseWaybackSource config"
  shows "recordsOf (unitRun w config domain URL) =
           (if IsInScope w URL domain (IncludeSubdomains config)
            then [\<lparr>Source = ''wayback'', Value = URL\<rparr>] else [])"
  using assms by (simp add: unitRun_def expandActions_def Name_def)

lemma concat_if_filter:
  "concat (map (\<lambda>x. if P x then [b x] else []) xs) = map b (filter P xs)"
  by (induction xs) simp_all

text \<open>
  With both expansion flags off and the index fetcher returning \<open>results\<close> without error:
  in every run the records received are, as a multiset, among the records \<open>{wayback, URL}\<close>
  of the results that pass the scope check as the code calls it, on the string the variable
  \<open>domain\<close> then holds, one for each occurrence; when the run has ended they are exactly
  those; and no expander is ever called.
\<close>

lemma plain_run_records:
  assumes "\<not> ParseWaybackRobots config" "\<not> ParseWaybackSource config"
    and "getWaybackURLs w (effectiveDomain config domain0) = (results, None)"
    and "Run w config domain0 sched = Next s"
  shows "mset (received s) \<subseteq>#
           mset (map (\<lambda>URL. \<lparr>Source = ''wayback'', Value = URL\<rparr>)
             (filter (\<lambda>URL. IsInScope w URL (effectiveDomain config domain0) (IncludeSubdomains config))
                results))
       \<and> (closed s \<longrightarrow>
            mset (received s) =
              mset (map (\<lambda>URL. \<lparr>Source = ''wayback'', Value = URL\<rparr>)
                (filter (\<lambda>URL. IsInScope w URL (effectiveDomain config domain0) (IncludeSubdomains config))
                   results)))
       \<and> (\<forall>i c u. Unit i (RobotsCalled c u) \<notin> set (trace s))
       \<and> (\<forall>i d u. Unit i (SourceCalled d u) \<notin> set (trace s))"
proof -
  let ?d = "effectiveDomain config domain0"
  have all: "concat (map (\<lambda>URL. recordsOf (unitRun w config ?d URL)) (dispatched w config domain0))
      = map (\<lambda>URL. \<lparr>Source = ''wayback'', Value = URL\<rparr>)
          (filter (\<lambda>URL. IsInScope w URL ?d (IncludeSubdomains config)) results)"
    by (simp add: dispatched_results [OF assms(3)] recordsOf_plain [OF assms(1,2)] concat_if_filter)
  from received_sub [OF assms(4)] all
  have 1: "mset (received s) \<subseteq>#
           mset (map (\<lambda>URL. \<lparr>Source = ''wayback'', Value = URL\<rparr>)
             (filter (\<lambda>URL. IsInScope w URL ?d (IncludeSubdomains config)) results))"
    by simp
  have 2: "closed s \<longrightarrow>
            mset (received s) =
              mset (map (\<lambda>URL. \<lparr>Source = ''wayback'', Value = URL\<rparr>)
                (filter (\<lambda>URL. IsInScope w URL ?d (IncludeSubdomains config)) results))"
    using received_closed [OF assms(4)] all by simp
  have 3: "\<forall>i c u. Unit i (RobotsCalled c u) \<notin> set (trace s)"
  proof (intro allI notI)
    fix i c u assume "Unit i (RobotsCalled c u) \<in> set (trace s)"
    from Run_unit_known [OF assms(4) this] assms(1) show False
      by (simp add: unitRun_RobotsCalled)
  qed
  have 4: "\<forall>i d u. Unit i (SourceCalled d u) \<notin> set (trace s)"
  proof (intro allI notI)
    fix i d u assume "Unit i (SourceCalled d u) \<in> set (trace s)"
    from Run_unit_known [OF assms(4) this] assms(2) show False
      by (simp add: unitRun_SourceCalled)
  qed
  from 1 2 3 4 show ?thesis by blast
qed

lemma index_example:
  "getWaybackURLs archive (effectiveDomain configPlain ''example.com'')
     = ([''http://example.com/a'', ''http://sub.example.com/b'', ''http://example.com/robots.txt'',
         ''http://example.com/docs/robots.txt'', ''http://example.com/logo.PNG'',
         ''http://example.com/robots.txt?v=2''], None)"
  by code_simp

lemma index_example_in_scope:
  "map (\<lambda>URL. \<lparr>Source = ''wayback'', Value = URL\<rparr>)
     (filter (\<lambda>URL. IsInScope archive URL (effectiveDomain configPlain ''example.com'')
                 (IncludeSubdomains configPlain))
        [''http://example.com/a'', ''http://sub.example.com/b'', ''http://example.com/robots.txt'',
         ''http://example.com/docs/robots.txt'', ''http://example.com/logo.PNG'',
         ''http://example.com/robots.txt?v=2''])
   = [\<lparr>Source = ''wayback'', Value = ''http://example.com/a''\<rparr>,
      \<lparr>Source = ''wayback'', Value = ''http://example.com/robots.txt''\<rparr>,
      \<lparr>Source = ''wayback'', Value = ''http://example.com/docs/robots.txt''\<rparr>,
      \<lparr>Source = ''wayback'', Value = ''http://example.com/logo.PNG''\<rparr>,
      \<lparr>Source = ''wayback'', Value = ''http://example.com/robots.txt?v=2''\<rparr>]"
  by code_simp

lemma plain_flags:
  "\<not> ParseWaybackRobots configPlain" "\<not> ParseWaybackSource configPlain" "closed finalPlain"
  by code_simp+

lemma plain_run_records_example:
  "Run archive configPlain ''example.com'' schedPlain = Next finalPlain
   \<and> closed finalPlain
   \<and> mset (received finalPlain)
       = mset [\<lparr>Source = ''wayback'', Value = ''http://example.com/a''\<rparr>,
               \<lparr>Source = ''wayback'', Value = ''http://example.com/robots.txt''\<rparr>,
               \<lparr>Source = ''wayback'', Value = ''http://example.com/docs/robots.txt''\<rparr>,
               \<lparr>Source = ''wayback'', Value = ''http://example.com/logo.PNG''\<rparr>,
               \<lparr>Source = ''wayback'', Value = ''http://example.com/robots.txt?v=2''\<rparr>]"
proof -
  from plain_run_records [OF plain_flags(1,2) index_example run_plain] plain_flags(3)
  have "mset (received finalPlain) =
      mset (map (\<lambda>URL. \<lparr>Source = ''wayback'', Value = URL\<rparr>)
        (filter (\<lambda>URL. IsInScope archive URL (effectiveDomain configPlain ''example.com'')
                 (IncludeSubdomains configPlain))
        [''http://example.com/a'', ''http://sub.example.com/b'', ''http://example.com/robots.txt'',
         ''http://example.com/docs/robots.txt'', ''http://example.com/logo.PNG'',
         ''http://example.com/robots.txt?v=2'']))"
    by blast
  then have "mset (received finalPlain)
       = mset [\<lparr>Source = ''wayback'', Value = ''http://example.com/a''\<rparr>,
               \<lparr>Source = ''wayback'', Value = ''http://example.com/robots.txt''\<rparr>,
               \<lparr>Source = ''wayback'', Value = ''http://example.com/docs/robots.txt''\<rparr>,
               \<lparr>Source = ''wayback'', Value = ''http://example.com/logo.PNG''\<rparr>,
               \<lparr>Source = ''wayback'', Value = ''http://example.com/robots.txt?v=2''\<rparr>]"
    by (simp only: index_example_in_scope)
  with run_plain plain_flags(3) show ?thesis by (intro conjI)
qed

lemma index_sub:
  "getWaybackURLs archive (effectiveDomain configSub ''example.com'')
     = ([''http://example.com/a'', ''http://sub.example.com/b'', ''http://example.com/robots.txt'',
         ''http://example.com/docs/robots.txt'', ''http://example.com/logo.PNG'',
         ''http://example.com/robots.txt?v=2''], None)"
  by code_simp

lemma sub_flags:
  "\<not> ParseWaybackRobots configSub" "\<not> ParseWaybackSource configSub"
  by code_simp+

lemma sub_code_scope:
  "filter (\<lambda>URL. IsInScope archive URL (effectiveDomain configSub ''example.com'')
              (IncludeSubdomains configSub))
     [''http://example.com/a'', ''http://sub.example.com/b'', ''http://example.com/robots.txt'',
      ''http://example.com/docs/robots.txt'', ''http://example.com/logo.PNG'',
      ''http://example.com/robots.txt?v=2''] = []"
  by code_simp

lemma subdomain_runs_send_nothing:
  assumes "Run archive configSub ''example.com'' sched = Next s"
  shows "received s = []"
proof -
  from plain_run_records [OF sub_flags index_sub assms]
  have "mset (received s) \<subseteq># {#}"
    by (simp only: sub_code_scope list.map mset.simps)
  then show ?thesis by simp
qed


subsection \<open>C3: the snapshot enumerator\<close>

text \<open>
  What \<^verbatim>\<open>getWaybackSnapshots\<close> returns once the body is parsed without error: the parsed
  list itself when it has fewer than two entries, the list without its first entry
  otherwise.
\<close>

lemma getWaybackSnapshots_parsed:
  assumes "SimpleGet w (''https://web.archive.org/cdx/search/cdx?url='' @ URL
              @ ''&output=json&fl=timestamp,original&collapse=digest'') = Inr res"
    and "ContentLength res \<noteq> 0"
    and "Unmarshal w (Body res) = (snapshots, None)"
  shows "getWaybackSnapshots w URL =
           (if length snapshots < 2 then snapshots else drop 1 snapshots, None)"
  using assms by (simp add: getWaybackSnapshots_def)

text \<open>
  C3. The claim: the snapshot enumerator returns an empty sequence when the parsed list has 0
  or 1 entries, and the N - 1 last entries when it has N \<ge> 2. On a response whose body parses
  to the single entry \<open>["timestamp","original"]\<close> the code returns that entry, not the empty
  sequence: the early return at \<^verbatim>\<open>len(snapshots) < 2\<close> leaves the named result as parsed.
\<close>

theorem getWaybackSnapshots_single_entry:
  "getWaybackSnapshots archive ''http://example.com/robots.txt''
     = ([(''timestamp'', ''original'')], None)"
  by code_simp

subsection \<open>C4: the content fetcher\<close>

text \<open>
  C4. \<^verbatim>\<open>getWaybackContent\<close> returns an error if and only if the fetch fails or the non-empty
  body contains the fingerprint; an empty body gives empty content and no error; a body with
  the fingerprint gives the error made from the fingerprint, which an empty body never gives.
\<close>

theorem getWaybackContent_error:
  "(snd (getWaybackContent w snapshot) \<noteq> None \<longleftrightarrow>
      (\<exists>err. SimpleGet w (''https://web.archive.org/web/'' @ fst snapshot @ ''if_/'' @ snd snapshot) = Inl err)
      \<or> (\<exists>res. SimpleGet w (''https://web.archive.org/web/'' @ fst snapshot @ ''if_/'' @ snd snapshot) = Inr res
            \<and> Body res \<noteq> [] \<and> Contains (Body res) snapshotNotFoundFingerprint))
   \<and> (\<forall>res. SimpleGet w (''https://web.archive.org/web/'' @ fst snapshot @ ''if_/'' @ snd snapshot) = Inr res
          \<and> Body res = [] \<longrightarrow> getWaybackContent w snapshot = ([], None))
   \<and> (\<forall>res. SimpleGet w (''https://web.archive.org/web/'' @ fst snapshot @ ''if_/'' @ snd snapshot) = Inr res
          \<and> Body res \<noteq> [] \<and> Contains (Body res) snapshotNotFoundFingerprint \<longrightarrow>
          getWaybackContent w snapshot = (Body res, Some (Errorf snapshotNotFoundFingerprint)))"
  by (cases "SimpleGet w (''https://web.archive.org/web/'' @ fst snapshot @ ''if_/'' @ snd snapshot)")
     (simp_all add: getWaybackContent_def Let_def)

lemma archive_2021:
  "SimpleGet archive (''https://web.archive.org/web/'' @ fst (''2021'', ''http://example.com/a'')
      @ ''if_/'' @ snd (''2021'', ''http://example.com/a''))
     = Inr \<lparr>Body = [], ContentLength = 0\<rparr>"
  by code_simp

lemma archive_2019:
  "SimpleGet archive (''https://web.archive.org/web/'' @ fst (''2019'', ''http://example.com/a'')
      @ ''if_/'' @ snd (''2019'', ''http://example.com/a''))
     = Inr \<lparr>Body = goneBody, ContentLength = int (length goneBody)\<rparr>"
  by code_simp

lemma goneBody_fingerprint: "goneBody \<noteq> [] \<and> Contains goneBody snapshotNotFoundFingerprint"
  by code_simp

theorem getWaybackContent_error_witness:
  "getWaybackContent archive (''2021'', ''http://example.com/a'') = ([], None)
   \<and> getWaybackContent archive (''2019'', ''http://example.com/a'')
       = (goneBody, Some (Errorf snapshotNotFoundFingerprint))
   \<and> snd (getWaybackContent archive (''2019'', ''http://example.com/a'')) \<noteq> None"
  using getWaybackContent_error [of archive "(''2021'', ''http://example.com/a'')"]
        getWaybackContent_error [of archive "(''2019'', ''http://example.com/a'')"]
        archive_2021 archive_2019 goneBody_fingerprint
  by simp

subsection \<open>C5: media URLs are not expanded\<close>

lemma lower_cases: "lower c = p \<Longrightarrow> c = p \<or> c = upper p"
proof (cases "between 0x41 0x5A c")
  case False
  assume "lower c = p"
  with False show ?thesis by (simp add: lower_def)
next
  case True
  assume l: "lower c = p"
  from True have b: "0x41 \<le> (of_char c :: nat)" "(of_char c :: nat) \<le> 0x5A"
    by (simp_all add: between_def byte_def)
  from l True have p: "p = char_of (of_char c + (0x20 :: nat))"
    by (simp add: lower_def byte_def)
  from b have "(of_char c + (0x20 :: nat)) mod 256 = of_char c + 0x20" by simp
  with p have bp: "(of_char p :: nat) = of_char c + 0x20" by simp
  with b have "between 0x61 0x7A p" by (simp add: between_def byte_def)
  with bp have "upper p = c" by (simp add: upper_def byte_def)
  then show ?thesis by simp
qed

lemma foldRune_lower: "lower c = p \<Longrightarrow> foldRune p (c # s) = Some s"
  using lower_cases [of c p] by auto

lemma foldLiteral_lower: "foldLiteral (map lower xs) (xs @ r) = Some r"
  by (induction xs) (simp_all add: foldRune_lower del: foldRune.simps)

lemma extensionHere_mediaHere: "extensionHere s \<Longrightarrow> mediaHere s"
proof (cases s)
  case Nil
  assume "extensionHere s"
  with Nil show ?thesis by simp
next
  case (Cons c t)
  assume "extensionHere s"
  with Cons obtain ext where dot: "c = CHR ''.''" and ext: "ext \<in> set mediaExtensions"
    and len: "length ext \<le> length t" and low: "map lower (take (length ext) t) = ext"
    and fin: "mediaEnd (drop (length ext) t)"
    by (auto simp: list_ex_iff)
  from foldLiteral_lower [of "take (length ext) t" "drop (length ext) t"] low
  have "foldLiteral ext t = Some (drop (length ext) t)" by simp
  with fin have "case foldLiteral ext t of None \<Rightarrow> False | Some r \<Rightarrow> mediaEnd r" by simp
  with ext have "\<exists>ext \<in> set mediaExtensions.
      case foldLiteral ext t of None \<Rightarrow> False | Some r \<Rightarrow> mediaEnd r" by (rule rev_bexI)
  with dot Cons show ?thesis by (simp add: list_ex_iff)
qed

lemma hasMediaExtension_regex: "hasMediaExtension URL \<Longrightarrow> mediaURLRegex URL"
proof (induction URL)
  case Nil
  then show ?case by simp
next
  case (Cons c s)
  from Cons.prems have "extensionHere (c # s) \<or> hasMediaExtension s" by simp
  then show ?case
  proof
    assume "extensionHere (c # s)"
    then have "mediaHere (c # s)" by (rule extensionHere_mediaHere)
    then show ?thesis by (simp del: mediaHere.simps)
  next
    assume "hasMediaExtension s"
    with Cons.IH show ?thesis by (simp del: mediaHere.simps)
  qed
qed

lemma unitRun_media:
  "mediaURLRegex URL \<Longrightarrow>
     unitRun w config domain URL =
       ScopeChecked URL domain (IncludeSubdomains config) #
         (if \<not> IsInScope w URL domain (IncludeSubdomains config) then []
          else [Sent \<lparr>Source = Name, Value = URL\<rparr>])"
  by (simp add: unitRun_def expandActions_def)

text \<open>
  C5. For a URL with a media extension in the words of the spec, whatever the flags: the
  unit never calls \<^verbatim>\<open>parseWaybackRobots\<close> nor \<^verbatim>\<open>parseWaybackSource\<close>, all it ever does is
  the scope check and the sending of the base record, and its step after the base record is
  to return.
\<close>

theorem media_never_expanded:
  assumes "hasMediaExtension URL" "Run w config domain0 sched = Next s"
    "i < length (units s)" "fst (units s ! i) = URL"
  shows "(\<forall>c u. Unit i (RobotsCalled c u) \<notin> set (trace s))
       \<and> (\<forall>d u. Unit i (SourceCalled d u) \<notin> set (trace s))
       \<and> (\<exists>rest. [ScopeChecked URL (effectiveDomain config domain0) (IncludeSubdomains config),
                   Sent \<lparr>Source = Name, Value = URL\<rparr>] = actionsOf i (trace s) @ rest)
       \<and> unitStep w config (domainVar s) URL AtExpand = Some (Returned, [])"
proof -
  from assms(1) have m: "mediaURLRegex URL" by (rule hasMediaExtension_regex)
  let ?d = "effectiveDomain config domain0"
  from Run_unit_prefix [OF assms(2,3)] assms(4) obtain rest where
    r: "unitRun w config ?d URL = actionsOf i (trace s) @ rest" by auto
  have no: "\<And>a. Unit i a \<in> set (trace s) \<Longrightarrow> a \<in> set (unitRun w config ?d URL)"
    using r by (auto simp: actionsOf_member [symmetric])
  have 1: "\<forall>c u. Unit i (RobotsCalled c u) \<notin> set (trace s)"
  proof (intro allI notI)
    fix c u assume "Unit i (RobotsCalled c u) \<in> set (trace s)"
    from no [OF this] m show False by (simp add: unitRun_media split: if_splits)
  qed
  have 2: "\<forall>d u. Unit i (SourceCalled d u) \<notin> set (trace s)"
  proof (intro allI notI)
    fix d u assume "Unit i (SourceCalled d u) \<in> set (trace s)"
    from no [OF this] m show False by (simp add: unitRun_media split: if_splits)
  qed
  have 3: "\<exists>rest. [ScopeChecked URL ?d (IncludeSubdomains config), Sent \<lparr>Source = Name, Value = URL\<rparr>]
             = actionsOf i (trace s) @ rest"
  proof (cases "IsInScope w URL ?d (IncludeSubdomains config)")
    case True
    with r m show ?thesis by (auto simp: unitRun_media)
  next
    case False
    with r m have "[ScopeChecked URL ?d (IncludeSubdomains config)] = actionsOf i (trace s) @ rest"
      by (simp add: unitRun_media)
    then have "[ScopeChecked URL ?d (IncludeSubdomains config), Sent \<lparr>Source = Name, Value = URL\<rparr>]
       = actionsOf i (trace s) @ (rest @ [Sent \<lparr>Source = Name, Value = URL\<rparr>])"
      by (metis append_Cons append_Nil append_assoc)
    then show ?thesis by blast
  qed
  have 4: "unitStep w config (domainVar s) URL AtExpand = Some (Returned, [])"
    using m by simp
  from 1 2 3 4 show ?thesis by blast
qed

lemma logo_media: "hasMediaExtension ''http://example.com/logo.PNG''"
  by code_simp

lemma logo_unit: "4 < length (units finalAll) \<and> fst (units finalAll ! 4) = ''http://example.com/logo.PNG''"
  by code_simp

lemma logo_actions:
  "actionsOf 4 (trace finalAll)
     = [ScopeChecked ''http://example.com/logo.PNG'' ''example.com'' False,
        Sent \<lparr>Source = ''wayback'', Value = ''http://example.com/logo.PNG''\<rparr>]"
  by code_simp

theorem media_never_expanded_witness:
  "hasMediaExtension ''http://example.com/logo.PNG''
   \<and> Run archive configAll ''example.com'' schedAll = Next finalAll
   \<and> Unit 4 (RobotsCalled configAll ''http://example.com/logo.PNG'') \<notin> set (trace finalAll)
   \<and> Unit 4 (SourceCalled ''example.com'' ''http://example.com/logo.PNG'') \<notin> set (trace finalAll)
   \<and> ParseWaybackRobots configAll \<and> ParseWaybackSource configAll
   \<and> actionsOf 4 (trace finalAll)
        = [ScopeChecked ''http://example.com/logo.PNG'' ''example.com'' False,
           Sent \<lparr>Source = ''wayback'', Value = ''http://example.com/logo.PNG''\<rparr>]"
proof -
  have f: "ParseWaybackRobots configAll \<and> ParseWaybackSource configAll" by code_simp
  from media_never_expanded [OF logo_media run_all, of 4] logo_unit logo_media run_all logo_actions f
  show ?thesis by blast
qed

subsection \<open>C6: which expander a unit calls\<close>






subsection \<open>C7: a failed index fetch\<close>

lemma Scan_line:
  assumes "CHR 0x0A \<notin> set l" "length l < MaxScanTokenSize"
  shows "Scan (l @ newline @ rest) = Token (dropCR l) rest"
proof -
  from assms(1) have "takeWhile (\<lambda>c. c \<noteq> CHR 0x0A) (l @ newline @ rest) = l"
    by (simp add: takeWhile_append newline_def)
  with assms(2) show ?thesis
    by (simp add: Scan_def Let_def newline_def)
qed

lemma Scan_replicate:
  assumes "c \<noteq> CHR 0x0A" "MaxScanTokenSize \<le> n"
  shows "Scan (replicate n c) = Stop (Some ErrTooLong)"
proof -
  from assms(2) have "n \<noteq> 0" by (simp add: MaxScanTokenSize_def)
  with assms show ?thesis
    by (simp add: Scan_def Let_def takeWhile_replicate)
qed

lemma Scan_longBody:
  "Scan longBody = Token ''http://long.example/a'' (replicate 65536 (CHR ''a''))"
proof -
  have "Scan (''http://long.example/a'' @ newline @ replicate 65536 (CHR ''a''))
      = Token (dropCR ''http://long.example/a'') (replicate 65536 (CHR ''a''))"
    by (rule Scan_line) (simp_all add: MaxScanTokenSize_def)
  then show ?thesis by (simp add: longBody_def dropCR_def)
qed

lemma scanLoop_longBody: "scanLoop longBody [] = ([''http://long.example/a''], Some ErrTooLong)"
proof -
  have 1: "scanLoop longBody [] = scanLoop (replicate 65536 (CHR ''a'')) [''http://long.example/a'']"
    by (subst scanLoop.simps) (simp add: Scan_longBody)
  have 2: "scanLoop (replicate 65536 (CHR ''a'')) [''http://long.example/a'']
             = ([''http://long.example/a''], Some ErrTooLong)"
    by (subst scanLoop.simps) (simp add: Scan_replicate MaxScanTokenSize_def)
  from 1 2 show ?thesis by simp
qed

lemma archive_long:
  "SimpleGet archive ''http://web.archive.org/cdx/search/cdx?url=long.example/*&output=txt&fl=original&collapse=urlkey''
     = Inr \<lparr>Body = longBody, ContentLength = int (length longBody)\<rparr>"
  by (simp add: archive_def)

lemma index_long:
  "getWaybackURLs archive ''long.example'' = ([''http://long.example/a''], Some ErrTooLong)"
proof -
  have "''http://web.archive.org/cdx/search/cdx?url='' @ ''long.example''
          @ ''/*&output=txt&fl=original&collapse=urlkey''
        = ''http://web.archive.org/cdx/search/cdx?url=long.example/*&output=txt&fl=original&collapse=urlkey''"
    by simp
  then show ?thesis
    by (simp only: getWaybackURLs_def Let_def archive_long sum.case Response.simps scanLoop_longBody)
qed

lemma run_long: "Run archive configPlain ''long.example'' schedLong = Next finalLong"
  by (simp add: Run_def schedLong_def init_def producerStep_def dispatcherStep_def configPlain_def
        index_long finalLong_def)

lemma no_events:
  assumes "\<forall>i. actionsOf i tr = []" "Closed \<notin> set tr"
  shows "tr = []"
proof (cases tr)
  case Nil
  then show ?thesis .
next
  case (Cons e tr')
  show ?thesis
  proof (cases e)
    case (Unit i a)
    with Cons have "a \<in> set (actionsOf i tr)" by (simp add: actionsOf_member)
    with assms(1) show ?thesis by simp
  next
    case Closed
    with Cons assms(2) show ?thesis by simp
  qed
qed

lemma failed_index_state:
  assumes f: "getWaybackURLs w (effectiveDomain config domain0) = (URLs, Some err)"
    and r: "Run w config domain0 sched = Next s"
  shows "units s = [] \<and> trace s = (if closed s then [Closed] else [])"
proof -
  note I = inv_Run [OF r]
  from f have d: "dispatched w config domain0 = []" by (simp add: dispatched_def)
  with I have u: "units s = []" by (simp add: inv_def)
  with I have none: "\<forall>i. actionsOf i (trace s) = []" by (simp add: inv_def)
  have "trace s = (if closed s then [Closed] else [])"
  proof (cases "closed s")
    case True
    with I obtain tr where tr: "trace s = tr @ [Closed]" "Closed \<notin> set tr"
      by (auto simp: inv_def closed_def)
    with none have "\<forall>i. actionsOf i tr = []" by simp
    from no_events [OF this tr(2)] tr(1) True show ?thesis by simp
  next
    case False
    with I have "Closed \<notin> set (trace s)" by (simp add: inv_def closed_def)
    from no_events [OF none this] False show ?thesis by simp
  qed
  with u show ?thesis by simp
qed

lemma linesOf_first:
  "data \<noteq> [] \<Longrightarrow>
     linesOf data =
       takeWhile (\<lambda>c. c \<noteq> CHR 0x0A) data
         # linesOf (drop (Suc (length (takeWhile (\<lambda>c. c \<noteq> CHR 0x0A) data))) data)"
proof (induction data)
  case Nil
  then show ?case by simp
next
  case (Cons c s)
  show ?case
  proof (cases "c = CHR 0x0A")
    case True
    then show ?thesis by simp
  next
    case False
    show ?thesis
    proof (cases "s = []")
      case True
      with False show ?thesis by simp
    next
      case nonempty: False
      from Cons.IH [OF nonempty] False show ?thesis by simp
    qed
  qed
qed

lemma take_takeWhile_length: "take (length (takeWhile P xs)) xs = takeWhile P xs"
  by (induction xs) simp_all

lemma scanLoop_lines:
  "scanLoop data URLs =
     (URLs @ filter (\<lambda>URL. URL \<noteq> []) (map dropCR (takeWhile (\<lambda>l. \<not> tooLong l) (linesOf data))),
      if list_ex tooLong (linesOf data) then Some ErrTooLong else None)"
proof (induction data URLs rule: scanLoop.induct)
  case (1 data URLs)
  let ?tw = "takeWhile (\<lambda>c. c \<noteq> CHR 0x0A) data"
  let ?rest = "drop (Suc (length ?tw)) data"
  show ?case
  proof (cases "data = []")
    case True
    then show ?thesis by (subst scanLoop.simps) (simp add: Scan_def)
  next
    case False
    note lines = linesOf_first [OF False]
    show ?thesis
    proof (cases "tooLong ?tw")
      case True
      with False have "Scan data = Stop (Some ErrTooLong)"
        by (simp add: Scan_def Let_def tooLong_def)
      with True lines show ?thesis by (subst scanLoop.simps) simp
    next
      case short: False
      with False have sc: "Scan data = Token (dropCR ?tw) ?rest"
        by (simp add: Scan_def Let_def tooLong_def take_takeWhile_length)
      show ?thesis
      proof (cases "dropCR ?tw = []")
        case True
        from "1.IH"(1) [OF sc True] sc True short lines show ?thesis
          by (subst scanLoop.simps) simp
      next
        case nonblank: False
        from "1.IH"(2) [OF sc nonblank] sc nonblank short lines show ?thesis
          by (subst scanLoop.simps) simp
      qed
    qed
  qed
qed

lemma getWaybackURLs_lines:
  "getWaybackURLs w domain =
     (case SimpleGet w (indexRequest domain) of
        Inl err \<Rightarrow> ([], Some err)
      | Inr res \<Rightarrow> (scannedBefore (Body res),
                    if scanFails (Body res) then Some ErrTooLong else None))"
  by (cases "SimpleGet w (indexRequest domain)")
     (simp_all add: getWaybackURLs_def Let_def indexRequest_def scanLoop_lines
        scannedBefore_def scanFails_def)

lemma indexFails_iff: "indexFails w domain \<longleftrightarrow> snd (getWaybackURLs w domain) \<noteq> None"
  by (cases "SimpleGet w (indexRequest domain)")
     (simp_all add: indexFails_def getWaybackURLs_lines)

lemma indexFails_result:
  assumes "indexFails w domain"
  shows "getWaybackURLs w domain =
     (case SimpleGet w (indexRequest domain) of
        Inl err \<Rightarrow> ([], Some err)
      | Inr res \<Rightarrow> (scannedBefore (Body res), Some ErrTooLong))"
  using assms
  by (cases "SimpleGet w (indexRequest domain)")
     (simp_all add: indexFails_def getWaybackURLs_lines)

lemma longBody_lines: "scanFails longBody \<and> scannedBefore longBody = [''http://long.example/a'']"
proof -
  from scanLoop_lines [of longBody "[]"] scanLoop_longBody
  have "([''http://long.example/a''], Some ErrTooLong)
      = (scannedBefore longBody, if scanFails longBody then Some ErrTooLong else None)"
    by (simp add: scannedBefore_def scanFails_def)
  then show ?thesis by (auto split: if_splits)
qed

lemma archive_long_request:
  "SimpleGet archive (indexRequest ''long.example'')
     = Inr \<lparr>Body = longBody, ContentLength = int (length longBody)\<rparr>"
  using archive_long by (simp add: indexRequest_def)

lemma index_long_fails: "indexFails archive (effectiveDomain configPlain ''long.example'')"
proof -
  have "effectiveDomain configPlain ''long.example'' = ''long.example''"
    by (simp add: effectiveDomain_def configPlain_def)
  then show ?thesis
    by (simp add: indexFails_def archive_long_request longBody_lines)
qed

lemma archive_down:
  "SimpleGet archive (indexRequest (effectiveDomain configPlain ''down.example''))
     = Inl (HTTPError ''dial tcp: i/o timeout'')"
  by code_simp

lemma index_down_fails: "indexFails archive (effectiveDomain configPlain ''down.example'')"
  by (simp add: indexFails_def archive_down)

lemma run_down: "Run archive configPlain ''down.example'' schedLong = Next finalDown"
  by code_simp

text \<open>
  C7, as amended. When the index fetch fails, \<^verbatim>\<open>getWaybackURLs\<close> returns an error: the error
  of the request with an empty sequence when the request fails, and \<^verbatim>\<open>bufio.ErrTooLong\<close>
  with the non-blank lines in front of the line that is too long when scanning fails. In
  every run no unit is then started, nothing is sent, the only event is the closing of
  \<^verbatim>\<open>URLsChannel\<close>, and the run can always be continued to that closing. The claim as written
  has the index fetcher return an empty sequence also when scanning fails.
\<close>

theorem index_failure_silent:
  assumes "indexFails w (effectiveDomain config domain0)"
    and "Run w config domain0 sched = Next s"
  shows "getWaybackURLs w (effectiveDomain config domain0) =
           (case SimpleGet w (indexRequest (effectiveDomain config domain0)) of
              Inl err \<Rightarrow> ([], Some err)
            | Inr res \<Rightarrow> (scannedBefore (Body res), Some ErrTooLong))
       \<and> units s = [] \<and> received s = []
       \<and> trace s = (if closed s then [Closed] else [])
       \<and> (\<exists>sched' s'. Run w config domain0 (sched @ sched') = Next s' \<and> closed s'
             \<and> trace s' = [Closed] \<and> received s' = [])"
proof -
  let ?d = "effectiveDomain config domain0"
  note res = indexFails_result [OF assms(1)]
  from assms(1) obtain URLs err where f: "getWaybackURLs w ?d = (URLs, Some err)"
    by (cases "getWaybackURLs w ?d") (auto simp: indexFails_iff)
  from failed_index_state [OF f assms(2)] have a: "units s = []"
    and b: "trace s = (if closed s then [Closed] else [])" by simp_all
  from b have c: "received s = []" by (simp add: received_def)
  from can_close [OF inv_Run [OF assms(2)]] obtain sched' s' where
    cl: "exec w config s sched' = Next s'" "closed s'" by blast
  with assms(2) have r': "Run w config domain0 (sched @ sched') = Next s'"
    by (simp add: Run_def exec_append)
  from failed_index_state [OF f r'] cl(2) have "trace s' = [Closed]" by simp
  moreover from this have "received s' = []" by (simp add: received_def)
  ultimately have d: "\<exists>sched' s'. Run w config domain0 (sched @ sched') = Next s' \<and> closed s'
             \<and> trace s' = [Closed] \<and> received s' = []"
    using r' cl(2) by blast
  from res a b c d show ?thesis by blast
qed

theorem index_failure_silent_witness:
  "indexFails archive (effectiveDomain configPlain ''long.example'')
   \<and> Run archive configPlain ''long.example'' schedLong = Next finalLong
   \<and> getWaybackURLs archive (effectiveDomain configPlain ''long.example'')
       = ([''http://long.example/a''], Some ErrTooLong)
   \<and> units finalLong = [] \<and> received finalLong = [] \<and> trace finalLong = [Closed]
   \<and> indexFails archive (effectiveDomain configPlain ''down.example'')
   \<and> Run archive configPlain ''down.example'' schedLong = Next finalDown
   \<and> getWaybackURLs archive (effectiveDomain configPlain ''down.example'')
       = ([], Some (HTTPError ''dial tcp: i/o timeout''))
   \<and> units finalDown = [] \<and> received finalDown = [] \<and> trace finalDown = [Closed]"
proof -
  have e: "effectiveDomain configPlain ''long.example'' = ''long.example''"
    by (simp add: effectiveDomain_def configPlain_def)
  have c: "closed finalLong" "closed finalDown"
    by (simp_all add: closed_def finalLong_def finalDown_def)
  note long = index_failure_silent [OF index_long_fails run_long]
  note down = index_failure_silent [OF index_down_fails run_down]
  from long e have l1: "getWaybackURLs archive (effectiveDomain configPlain ''long.example'')
       = ([''http://long.example/a''], Some ErrTooLong)"
    by (simp add: archive_long_request longBody_lines)
  from long c have l2: "units finalLong = [] \<and> received finalLong = [] \<and> trace finalLong = [Closed]"
    by simp
  from down have d1: "getWaybackURLs archive (effectiveDomain configPlain ''down.example'')
       = ([], Some (HTTPError ''dial tcp: i/o timeout''))"
    by (simp add: archive_down)
  from down c have d2: "units finalDown = [] \<and> received finalDown = [] \<and> trace finalDown = [Closed]"
    by simp
  from index_long_fails run_long l1 l2 index_down_fails run_down d1 d2 show ?thesis
    by (intro conjI) blast+
qed

theorem index_failure_counterexample:
  "getWaybackURLs archive ''long.example'' = ([''http://long.example/a''], Some ErrTooLong)
   \<and> fst (getWaybackURLs archive ''long.example'') \<noteq> []
   \<and> snd (getWaybackURLs archive ''long.example'') \<noteq> None"
  by (simp add: index_long)

subsection \<open>C8: the output channel is closed in the end\<close>

text \<open>
  C8. With a reader that receives whenever a unit sends, and expanders whose channels are
  closed after finitely many strings: for every archive, configuration and domain, under
  every schedule, no goroutine panics; the run has at most as many steps as the weight of
  the initial state, so no run goes on for ever; as long as \<^verbatim>\<open>URLsChannel\<close> is not closed
  some goroutine can move, and the run can be continued to a state where the channel is
  closed; and the channel is closed only when \<^verbatim>\<open>waybackURLs\<close> is closed and every unit has
  returned, as the last event of the run, after which nothing moves. So every run that is continued as long as something can move
  ends, and ends with the channel closed, whatever the fetches return.
\<close>

theorem Run_closes:
  "Run w config domain0 sched \<noteq> Panic \<and>
   (\<forall>s. Run w config domain0 sched = Next s \<longrightarrow>
      length sched \<le> weight w config (init domain0) \<and>
      (\<not> closed s \<longrightarrow> (\<exists>a s'. step w config s a = Next s')) \<and>
      (\<exists>sched' s'. Run w config domain0 (sched @ sched') = Next s' \<and> closed s') \<and>
      (closed s \<longrightarrow>
         prod s = PClosed \<and> (\<forall>u \<in> set (units s). snd u = Returned) \<and>
         (\<exists>tr. trace s = tr @ [Closed] \<and> Closed \<notin> set tr) \<and>
         (\<forall>a. step w config s a = Blocked)))"
proof (intro conjI allI impI)
  show "Run w config domain0 sched \<noteq> Panic"
    unfolding Run_def by (rule exec_no_panic [OF inv_init])
next
  fix s assume r: "Run w config domain0 sched = Next s"
  then have I: "inv w config domain0 s" by (rule inv_Run)
  from r weight_exec [OF inv_init, of w config domain0 sched s]
  show "length sched \<le> weight w config (init domain0)"
    by (simp add: Run_def)
  show "\<exists>sched' s'. Run w config domain0 (sched @ sched') = Next s' \<and> closed s'"
    using can_close [OF I] r by (simp add: Run_def exec_append)
  {
    assume "\<not> closed s"
    then show "\<exists>a s'. step w config s a = Next s'"
      using progress [OF I] by (simp add: closed_def)
  }
  {
    assume c: "closed s"
    with I show "prod s = PClosed" by (auto simp: inv_def closed_def)
    from c I have z: "active (units s) = 0" by (simp add: inv_def closed_def)
    then show ret: "\<forall>u \<in> set (units s). snd u = Returned" by (simp add: active_zero)
    from c I show "\<exists>tr. trace s = tr @ [Closed] \<and> Closed \<notin> set tr"
      by (simp add: inv_def closed_def)
    fix a
    show "step w config s a = Blocked"
    proof (cases a)
      case Producer
      with c I show ?thesis by (auto simp: inv_def closed_def producerStep_def)
    next
      case Dispatcher
      with c show ?thesis by (simp add: closed_def dispatcherStep_def)
    next
      case (Worker i)
      show ?thesis
      proof (cases "i < length (units s)")
        case True
        with ret have "snd (units s ! i) = Returned" by simp
        with Worker True show ?thesis by (simp add: workerStep_def)
      next
        case False
        with Worker show ?thesis by (simp add: workerStep_def)
      qed
    qed
  }
qed

theorem Run_closes_witness:
  "Run archive configPlain ''example.com'' schedPlain = Next finalPlain \<and> closed finalPlain
   \<and> length schedPlain \<le> weight archive configPlain (init ''example.com'')
   \<and> prod finalPlain = PClosed \<and> list_all (\<lambda>u. snd u = Returned) (units finalPlain)
   \<and> step archive configPlain finalPlain (Worker 0) = Blocked"
proof -
  have c: "closed finalPlain" by code_simp
  from Run_closes [of archive configPlain "''example.com''" schedPlain] run_plain c
  show ?thesis by (simp del: step.simps add: list_all_iff)
qed

subsection \<open>C9: the domain of the scope checks\<close>

text \<open>
  C9. When \<^verbatim>\<open>IncludeSubdomains\<close> is set, the shared variable \<open>domain\<close> holds
  \<open>"*." + rootDomain\<close> from the producer's first step on, no unit exists before that step, and
  every call of \<^verbatim>\<open>sources.IsInScope\<close> and of \<^verbatim>\<open>parseWaybackSource\<close> in the run, for index URLs
  and inside the expansion loops, is passed the rewritten string.
\<close>

theorem Run_domain_rewritten:
  assumes "IncludeSubdomains config" "Run w config domain0 sched = Next s"
  shows "(prod s \<noteq> PStart \<longrightarrow> domainVar s = ''*.'' @ domain0)
       \<and> (units s \<noteq> [] \<longrightarrow> prod s \<noteq> PStart)
       \<and> (\<forall>i URL d b. Unit i (ScopeChecked URL d b) \<in> set (trace s) \<longrightarrow> d = ''*.'' @ domain0)
       \<and> (\<forall>i d URL. Unit i (SourceCalled d URL) \<in> set (trace s) \<longrightarrow> d = ''*.'' @ domain0)"
proof (intro conjI allI impI)
  from assms(1) have e: "effectiveDomain config domain0 = ''*.'' @ domain0"
    by (simp add: effectiveDomain_def)
  note I = inv_Run [OF assms(2)]
  {
    assume "prod s \<noteq> PStart"
    with I e show "domainVar s = ''*.'' @ domain0" by (simp add: inv_def)
  }
  {
    assume "units s \<noteq> []"
    with I show "prod s \<noteq> PStart" by (auto simp: inv_def)
  }
  {
    fix i URL d b assume "Unit i (ScopeChecked URL d b) \<in> set (trace s)"
    from Run_unit_known [OF assms(2) this] e show "d = ''*.'' @ domain0"
      by (auto dest!: unitRun_set)
  }
  {
    fix i d URL assume "Unit i (SourceCalled d URL) \<in> set (trace s)"
    from Run_unit_known [OF assms(2) this] e show "d = ''*.'' @ domain0"
      by (auto dest!: unitRun_set)
  }
qed

theorem Run_domain_rewritten_witness:
  "IncludeSubdomains configSub \<and> Run archive configSub ''example.com'' schedSub = Next finalSub
   \<and> domainVar finalSub = ''*.example.com''
   \<and> Unit 0 (ScopeChecked ''http://example.com/a'' ''*.example.com'' True) \<in> set (trace finalSub)"
proof -
  have c: "IncludeSubdomains configSub" by code_simp
  have p: "prod finalSub \<noteq> PStart" by code_simp
  have m: "Unit 0 (ScopeChecked ''http://example.com/a'' ''*.example.com'' True) \<in> set (trace finalSub)"
    by code_simp
  from Run_domain_rewritten [OF c run_sub] p m c run_sub show ?thesis by simp
qed

subsection \<open>C10: the base record comes first\<close>

lemma Name_tags [simp]:
  "Name @ '':robots'' \<noteq> Name" "Name @ '':source'' \<noteq> Name"
  by simp_all

text \<open>
  C10. In every run, for every unit: if its URL fails the scope check the unit sends nothing;
  and whenever the unit sends a record, either it is the base record and the unit has sent
  nothing before, or it is tagged \<open>wayback:robots\<close> or \<open>wayback:source\<close> and the unit's base
  record was sent earlier in the run.
\<close>

theorem base_record_first:
  assumes "Run w config domain0 sched = Next s" "i < length (units s)"
  shows "(\<not> IsInScope w (fst (units s ! i)) (effectiveDomain config domain0) (IncludeSubdomains config)
            \<longrightarrow> (\<forall>r. Unit i (Sent r) \<notin> set (trace s)))
       \<and> (\<forall>pre r post. trace s = pre @ Unit i (Sent r) # post \<longrightarrow>
            (if r = \<lparr>Source = Name, Value = fst (units s ! i)\<rparr>
             then \<forall>r'. Unit i (Sent r') \<notin> set pre
             else Unit i (Sent \<lparr>Source = Name, Value = fst (units s ! i)\<rparr>) \<in> set pre
                  \<and> (Source r = Name @ '':robots'' \<or> Source r = Name @ '':source'')))"
proof -
  let ?d = "effectiveDomain config domain0"
  let ?U = "fst (units s ! i)"
  let ?sc = "ScopeChecked ?U ?d (IncludeSubdomains config)"
  let ?base = "\<lparr>Source = Name, Value = ?U\<rparr>"
  from Run_unit_prefix [OF assms] obtain rest where
    run: "unitRun w config ?d ?U = actionsOf i (trace s) @ rest" by blast
  have 1: "\<not> IsInScope w ?U ?d (IncludeSubdomains config) \<longrightarrow> (\<forall>r. Unit i (Sent r) \<notin> set (trace s))"
  proof (intro impI allI notI)
    fix r assume out: "\<not> IsInScope w ?U ?d (IncludeSubdomains config)"
      and "Unit i (Sent r) \<in> set (trace s)"
    then have "Sent r \<in> set (actionsOf i (trace s))" by (simp add: actionsOf_member)
    with run have "Sent r \<in> set (unitRun w config ?d ?U)" by simp
    with out show False by (simp add: unitRun_def)
  qed
  have 2: "\<forall>pre r post. trace s = pre @ Unit i (Sent r) # post \<longrightarrow>
            (if r = ?base then \<forall>r'. Unit i (Sent r') \<notin> set pre
             else Unit i (Sent ?base) \<in> set pre
                  \<and> (Source r = Name @ '':robots'' \<or> Source r = Name @ '':source''))"
  proof (intro allI impI)
    fix pre r post assume split: "trace s = pre @ Unit i (Sent r) # post"
    let ?A = "actionsOf i pre"
    from split have "actionsOf i (trace s) = ?A @ Sent r # actionsOf i post"
      by (simp add: actionsOf_def)
    with run have whole: "unitRun w config ?d ?U = ?A @ Sent r # (actionsOf i post @ rest)"
      by simp
    have head: "unitRun w config ?d ?U = ?sc #
        (if \<not> IsInScope w ?U ?d (IncludeSubdomains config) then []
         else Sent ?base # expandActions w config ?d ?U)"
      by (simp add: unitRun_def)
    from whole head obtain A' where A: "?A = ?sc # A'"
      by (cases ?A) auto
    with whole head have scope: "IsInScope w ?U ?d (IncludeSubdomains config)"
      and tail: "Sent ?base # expandActions w config ?d ?U = A' @ Sent r # (actionsOf i post @ rest)"
      by (auto split: if_splits)
    show "if r = ?base then \<forall>r'. Unit i (Sent r') \<notin> set pre
          else Unit i (Sent ?base) \<in> set pre
               \<and> (Source r = Name @ '':robots'' \<or> Source r = Name @ '':source'')"
    proof (cases A')
      case Nil
      with tail have r: "r = ?base" by simp
      have "\<forall>r'. Unit i (Sent r') \<notin> set pre"
      proof (intro allI notI)
        fix r' assume "Unit i (Sent r') \<in> set pre"
        then have "Sent r' \<in> set ?A" by (simp add: actionsOf_member)
        with A Nil show False by simp
      qed
      with r show ?thesis by simp
    next
      case (Cons a A'')
      with tail have a: "a = Sent ?base"
        and ex: "expandActions w config ?d ?U = A'' @ Sent r # (actionsOf i post @ rest)"
        by simp_all
      from a A Cons have "Sent ?base \<in> set ?A" by simp
      then have before: "Unit i (Sent ?base) \<in> set pre" by (simp add: actionsOf_member)
      from ex have "Sent r \<in> set (expandActions w config ?d ?U)" by simp
      from expandActions_set [OF this]
      have tag: "Source r = Name @ '':robots'' \<or> Source r = Name @ '':source''" by auto
      then have "r \<noteq> ?base" by auto
      with before tag show ?thesis by simp
    qed
  qed
  from 1 2 show ?thesis by blast
qed

lemma finalAll_units:
  "2 < length (units finalAll)" "1 < length (units finalAll)"
  by code_simp+

lemma finalAll_sitemap:
  "trace finalAll = take 19 (trace finalAll)
     @ Unit 2 (Sent \<lparr>Source = ''wayback:robots'', Value = ''http://example.com/sitemap.xml''\<rparr>)
     # drop 20 (trace finalAll)"
  by code_simp

lemma finalAll_sitemap_expansion:
  "\<lparr>Source = ''wayback:robots'', Value = ''http://example.com/sitemap.xml''\<rparr>
     \<noteq> \<lparr>Source = Name, Value = fst (units finalAll ! 2)\<rparr>"
  by code_simp

lemma finalAll_sub_out:
  "\<not> IsInScope archive (fst (units finalAll ! 1)) (effectiveDomain configAll ''example.com'')
       (IncludeSubdomains configAll)"
  by code_simp

theorem base_record_first_witness:
  "Run archive configAll ''example.com'' schedAll = Next finalAll
   \<and> Unit 2 (Sent \<lparr>Source = Name, Value = fst (units finalAll ! 2)\<rparr>)
       \<in> set (take 19 (trace finalAll))
   \<and> Unit 1 (Sent \<lparr>Source = Name, Value = fst (units finalAll ! 1)\<rparr>) \<notin> set (trace finalAll)"
proof -
  note two = base_record_first [OF run_all finalAll_units(1)]
  note one = base_record_first [OF run_all finalAll_units(2)]
  from two have "\<forall>pre r post. trace finalAll = pre @ Unit 2 (Sent r) # post \<longrightarrow>
            (if r = \<lparr>Source = Name, Value = fst (units finalAll ! 2)\<rparr>
             then \<forall>r'. Unit 2 (Sent r') \<notin> set pre
             else Unit 2 (Sent \<lparr>Source = Name, Value = fst (units finalAll ! 2)\<rparr>) \<in> set pre
                  \<and> (Source r = Name @ '':robots'' \<or> Source r = Name @ '':source''))"
    by (rule conjunct2)
  from this [rule_format, OF finalAll_sitemap] finalAll_sitemap_expansion
  have a: "Unit 2 (Sent \<lparr>Source = Name, Value = fst (units finalAll ! 2)\<rparr>)
             \<in> set (take 19 (trace finalAll))"
    by (simp only: if_not_P if_False)
  from one have "\<not> IsInScope archive (fst (units finalAll ! 1)) (effectiveDomain configAll ''example.com'')
       (IncludeSubdomains configAll) \<longrightarrow> (\<forall>r. Unit 1 (Sent r) \<notin> set (trace finalAll))"
    by (rule conjunct1)
  from this [rule_format, OF finalAll_sub_out]
  have b: "Unit 1 (Sent \<lparr>Source = Name, Value = fst (units finalAll ! 1)\<rparr>) \<notin> set (trace finalAll)" .
  from run_all a b show ?thesis by (intro conjI)
qed

end
